theory Spec2Isabelle
  imports Complex_Main
begin

section \<open>Python numbers\<close>

text \<open>
  A Python \<^verbatim>\<open>int\<close> is an \<^typ>\<open>int\<close>. A Python \<^verbatim>\<open>float\<close> is an IEEE 754 binary64
  number; it is modelled by the rational number it denotes, and every floating-point
  operation of the source is the exact operation followed by \<open>binary64\<close>, rounding to
  53 significant bits, ties to even. The exponent range is not modelled (no overflow,
  no subnormals): the floats of the program are scale factors between 0.28 and 1,
  image dimensions, and fractions \<open>(i + 1) / n\<close> of a list length with their percentages.
\<close>

type_synonym float = rat

fun bit_length :: "nat \<Rightarrow> nat" where
  "bit_length n = (if n = 0 then 0 else Suc (bit_length (n div 2)))"

declare bit_length.simps [simp del]

definition ilog2 :: "rat \<Rightarrow> int" where
  \<comment> \<open>for \<open>0 < x\<close>: the exponent \<open>e\<close> with \<open>2 ^ e \<le> x < 2 ^ (e + 1)\<close>\<close>
  "ilog2 x =
     (if 1 \<le> x then int (bit_length (nat \<lfloor>x\<rfloor>)) - 1
      else - int (bit_length (nat (\<lceil>1 / x\<rceil> - 1))))"

definition pow2 :: "int \<Rightarrow> rat" where
  "pow2 e = (if 0 \<le> e then 2 ^ nat e else 1 / 2 ^ nat (- e))"

definition round_half_even :: "rat \<Rightarrow> int" where
  "round_half_even x =
     (let f = \<lfloor>x\<rfloor>; d = x - of_int f
      in if d < 1 / 2 then f else if 1 / 2 < d then f + 1
         else if even f then f else f + 1)"

definition binary64 :: "rat \<Rightarrow> float" where
  "binary64 x =
     (if x = 0 then 0
      else let u = pow2 (ilog2 \<bar>x\<bar> - 52)
           in sgn x * of_int (round_half_even (\<bar>x\<bar> / u)) * u)"

definition float_of_int :: "int \<Rightarrow> float" where
  \<comment> \<open>the conversion of an \<^verbatim>\<open>int\<close> operand in mixed arithmetic\<close>
  "float_of_int i = binary64 (of_int i)"

definition float_mul :: "float \<Rightarrow> float \<Rightarrow> float" where
  \<comment> \<open>\<^verbatim>\<open>a * b\<close> on floats\<close>
  "float_mul a b = binary64 (a * b)"

definition true_div :: "int \<Rightarrow> int \<Rightarrow> float" where
  \<comment> \<open>\<^verbatim>\<open>a / b\<close> on ints, \<open>b \<noteq> 0\<close>: the correctly rounded quotient\<close>
  "true_div a b = binary64 (of_int a / of_int b)"

definition py_int :: "float \<Rightarrow> int" where
  \<comment> \<open>\<^verbatim>\<open>int(x)\<close>: truncation towards zero\<close>
  "py_int x = (if 0 \<le> x then \<lfloor>x\<rfloor> else \<lceil>x\<rceil>)"

definition py_round :: "float \<Rightarrow> int" where
  \<comment> \<open>\<^verbatim>\<open>round(x)\<close>: to the nearest integer, ties to even\<close>
  "py_round x = round_half_even x"

section \<open>Pillow images and the file system\<close>

text \<open>
  \<^verbatim>\<open>Image.open\<close>, \<^verbatim>\<open>Image.resize\<close> and \<^verbatim>\<open>Image.save\<close> belong to Pillow, not to this
  repository. An opened image carries its \<^verbatim>\<open>format\<close>, its \<^verbatim>\<open>size\<close> and, standing for its
  pixels and the codec, the number of bytes \<^verbatim>\<open>save\<close> writes for a buffer, a format and a
  quality (\<open>None\<close> when resampling or encoding raises). A buffer is the image itself or
  the result of \<^verbatim>\<open>img.resize((w, h), filter)\<close>. What \<^verbatim>\<open>Image.open\<close> finds at a path is a
  function of the path (\<open>None\<close> when it raises), taken not to change during a batch; the
  disk of the model records what \<^verbatim>\<open>resize_image\<close> writes.
\<close>

datatype resample = NEAREST | BOX | BILINEAR | HAMMING | BICUBIC | LANCZOS

datatype buffer = Img | Resize int int resample

record image =
  im_format :: "string option"
  im_size :: "int \<times> int"
  im_save :: "buffer \<Rightarrow> string \<Rightarrow> int \<Rightarrow> int option"

record artifact =
  art_buffer :: buffer
  art_format :: string
  art_quality :: int
  art_bytes :: int

type_synonym disk = "string \<rightharpoonup> artifact"

definition shutil_move :: "disk \<Rightarrow> string \<Rightarrow> string \<Rightarrow> disk" where
  "shutil_move d src dst = (d(dst := d src))(src := None)"

definition os_remove_if_exists :: "disk \<Rightarrow> string \<Rightarrow> disk" where
  \<comment> \<open>\<^verbatim>\<open>if os.path.exists(p): os.remove(p)\<close>\<close>
  "os_remove_if_exists d p = d(p := None)"

section \<open>ImageResizer.resize_image\<close>

record attempt =
  at_quality :: int
  at_scale :: float
  at_buffer :: buffer
  at_bytes :: "int option"

datatype exit = Out_of_fuel | Raised | Returned bool int

record search =
  attempts :: "attempt list"
  exit :: exit
  disk_after :: disk

datatype next_step = Done bool int | Again int float

definition min_quality :: int where
  "min_quality = 10"

definition resized :: "int \<times> int \<Rightarrow> float \<Rightarrow> buffer" where
  \<comment> \<open>lines 52-57\<close>
  "resized sz scale_factor =
     (if scale_factor < 1
      then Resize (py_int (float_mul (float_of_int (fst sz)) scale_factor))
                  (py_int (float_mul (float_of_int (snd sz)) scale_factor)) LANCZOS
      else Img)"

definition adjust :: "int \<Rightarrow> int \<Rightarrow> int \<Rightarrow> float \<Rightarrow> int \<Rightarrow> next_step" where
  \<comment> \<open>lines 66-93: \<open>Done\<close> is a \<^verbatim>\<open>return\<close> (after the move to the output path),
      \<open>Again\<close> the next iteration with the new quality and scale factor\<close>
  "adjust min_size_bytes max_size_bytes quality scale_factor file_size =
     (if min_size_bytes \<le> file_size \<and> file_size \<le> max_size_bytes then Done True file_size
      else if file_size > max_size_bytes then
        (if quality > min_quality then Again (quality - 5) scale_factor
         else let scale_factor' = float_mul scale_factor (binary64 (9 / 10))
              in if scale_factor' < binary64 (3 / 10) then Done False file_size
                 else Again quality scale_factor')
      else
        (if quality < 95 then Again (quality + 5) scale_factor
         else Done True file_size))"

definition attempt_of :: "image \<Rightarrow> int \<Rightarrow> float \<Rightarrow> int option \<Rightarrow> attempt" where
  "attempt_of img quality scale_factor bytes =
     \<lparr>at_quality = quality, at_scale = scale_factor,
      at_buffer = resized (im_size img) scale_factor, at_bytes = bytes\<rparr>"

definition artifact_of :: "image \<Rightarrow> string \<Rightarrow> int \<Rightarrow> float \<Rightarrow> int \<Rightarrow> artifact" where
  \<comment> \<open>what line 61 writes: \<^verbatim>\<open>resized_img.save(temp_output, format=img_format, quality=quality)\<close>\<close>
  "artifact_of img img_format quality scale_factor file_size =
     \<lparr>art_buffer = resized (im_size img) scale_factor, art_format = img_format,
      art_quality = quality, art_bytes = file_size\<rparr>"

text \<open>
  The \<^verbatim>\<open>while True\<close> loop of lines 50-97. The source has no iteration counter; the
  first argument bounds the number of iterations the model follows, and \<open>Out_of_fuel\<close>
  says that the loop was still running after that many. Every iteration is recorded
  in \<open>attempts\<close>. File operations other than \<^verbatim>\<open>save\<close> are taken to succeed.
\<close>

fun resize_loop ::
  "nat \<Rightarrow> image \<Rightarrow> string \<Rightarrow> string \<Rightarrow> int \<Rightarrow> int \<Rightarrow> int \<Rightarrow> float \<Rightarrow> disk \<Rightarrow> search" where
  "resize_loop 0 img img_format output_path min_size_bytes max_size_bytes quality scale_factor d =
     \<lparr>attempts = [], exit = Out_of_fuel, disk_after = d\<rparr>"
| "resize_loop (Suc n) img img_format output_path min_size_bytes max_size_bytes quality scale_factor d =
     (let temp_output = output_path @ ''.temp''
      in case im_save img (resized (im_size img) scale_factor) img_format quality of
           None \<Rightarrow>
             \<lparr>attempts = [attempt_of img quality scale_factor None],
              exit = Raised, disk_after = d\<rparr>
         | Some file_size \<Rightarrow>
             let d' = d(temp_output \<mapsto> artifact_of img img_format quality scale_factor file_size);
                 a = attempt_of img quality scale_factor (Some file_size)
             in case adjust min_size_bytes max_size_bytes quality scale_factor file_size of
                  Done ok sz \<Rightarrow>
                    \<lparr>attempts = [a], exit = Returned ok sz,
                     disk_after = shutil_move d' temp_output output_path\<rparr>
                | Again quality' scale_factor' \<Rightarrow>
                    let r = resize_loop n img img_format output_path min_size_bytes
                              max_size_bytes quality' scale_factor'
                              (os_remove_if_exists d' temp_output)
                    in r\<lparr>attempts := a # attempts r\<rparr>)"

definition format_or_default :: "image \<Rightarrow> string" where
  \<comment> \<open>lines 34-36: \<^verbatim>\<open>if not img_format: img_format = 'JPEG'\<close>\<close>
  "format_or_default img =
     (case im_format img of
        None \<Rightarrow> ''JPEG''
      | Some f \<Rightarrow> if f = [] then ''JPEG'' else f)"

definition resize_image ::
  "nat \<Rightarrow> (string \<Rightarrow> image option) \<Rightarrow> disk \<Rightarrow> string \<Rightarrow> string \<Rightarrow> int \<times> int \<Rightarrow> search" where
  "resize_image n Image_open d input_path output_path target_size_kb =
     (case Image_open input_path of
        None \<Rightarrow> \<lparr>attempts = [], exit = Raised, disk_after = d\<rparr>
      | Some img \<Rightarrow>
          let img_format = format_or_default img;
              quality = 90;
              max_size_bytes = snd target_size_kb * 1024;
              min_size_bytes = fst target_size_kb * 1024;
              scale_factor = 1
          in resize_loop n img img_format output_path min_size_bytes max_size_bytes
               quality scale_factor d)"

definition returned :: "search \<Rightarrow> (bool \<times> int) option" where
  \<comment> \<open>the value \<^verbatim>\<open>resize_image\<close> returns: \<^verbatim>\<open>except Exception: return False, 0\<close>\<close>
  "returned r =
     (case exit r of
        Out_of_fuel \<Rightarrow> None
      | Raised \<Rightarrow> Some (False, 0)
      | Returned ok sz \<Rightarrow> Some (ok, sz))"

section \<open>Paths\<close>

text \<open>
  \<^verbatim>\<open>os.path.basename\<close>, \<^verbatim>\<open>os.path.join\<close> and \<^verbatim>\<open>os.path.splitext\<close> as \<^verbatim>\<open>posixpath\<close>
  defines them, and \<^verbatim>\<open>str.lower\<close> on ASCII letters.
\<close>

primrec rfind_aux :: "char \<Rightarrow> string \<Rightarrow> int \<Rightarrow> int \<Rightarrow> int" where
  "rfind_aux c [] i r = r"
| "rfind_aux c (x # xs) i r = rfind_aux c xs (i + 1) (if x = c then i else r)"

definition rfind :: "char \<Rightarrow> string \<Rightarrow> int" where
  \<comment> \<open>\<^verbatim>\<open>p.rfind(c)\<close>: the highest index of \<open>c\<close>, or \<open>-1\<close>\<close>
  "rfind c p = rfind_aux c p 0 (- 1)"

definition basename :: "string \<Rightarrow> string" where
  "basename p = drop (nat (rfind CHR ''/'' p + 1)) p"

definition join :: "string \<Rightarrow> string \<Rightarrow> string" where
  "join a b =
     (if take 1 b = ''/'' then b
      else if a = [] \<or> drop (length a - 1) a = ''/'' then a @ b
      else a @ ''/'' @ b)"

definition splitext :: "string \<Rightarrow> string \<times> string" where
  "splitext p =
     (let sepIndex = rfind CHR ''/'' p;
          dotIndex = rfind CHR ''.'' p
      in if dotIndex > sepIndex \<and>
            list_ex (\<lambda>ch. ch \<noteq> CHR ''.'')
              (take (nat (dotIndex - (sepIndex + 1))) (drop (nat (sepIndex + 1)) p))
         then (take (nat dotIndex) p, drop (nat dotIndex) p)
         else (p, []))"

definition lower_char :: "char \<Rightarrow> char" where
  "lower_char c =
     (case map_of (zip ''ABCDEFGHIJKLMNOPQRSTUVWXYZ'' ''abcdefghijklmnopqrstuvwxyz'') c of
        None \<Rightarrow> c
      | Some l \<Rightarrow> l)"

definition lower :: "string \<Rightarrow> string" where
  "lower s = map lower_char s"

section \<open>ResizeWorker.run\<close>

type_synonym file_outcome = "string \<times> string \<times> bool \<times> int"

datatype signal =
  progress_updated int
| file_processed string bool int
| resize_completed "file_outcome list"

record worker =
  results :: "file_outcome list"
  emitted :: "signal list"
  disk :: disk

definition supported :: "string \<Rightarrow> bool" where
  \<comment> \<open>lines 126-127\<close>
  "supported file_path =
     (let ext = lower (snd (splitext file_path))
      in ext \<in> set [''.jpg'', ''.jpeg'', ''.png'', ''.bmp'', ''.webp''])"

definition progress_of :: "nat \<Rightarrow> nat \<Rightarrow> int" where
  \<comment> \<open>line 134: \<^verbatim>\<open>int((i + 1) / len(self.files) * 100)\<close>\<close>
  "progress_of i len_files =
     py_int (float_mul (true_div (int i + 1) (int len_files)) (float_of_int 100))"

text \<open>
  The \<^verbatim>\<open>for\<close> loop of lines 118-136 over \<^verbatim>\<open>enumerate(self.files)\<close>. \<^verbatim>\<open>self.running\<close> is
  written by another thread (\<^verbatim>\<open>stop\<close>); \<open>running i\<close> is the value the loop reads at the
  start of iteration \<open>i\<close>. The result is \<open>None\<close> when a call of \<^verbatim>\<open>resize_image\<close> is still
  running after \<open>n\<close> iterations of its loop.
\<close>

fun run_loop ::
  "nat \<Rightarrow> (string \<Rightarrow> image option) \<Rightarrow> string \<Rightarrow> int \<times> int \<Rightarrow> (nat \<Rightarrow> bool) \<Rightarrow> nat \<Rightarrow>
   nat \<Rightarrow> string list \<Rightarrow> worker \<Rightarrow> worker option" where
  "run_loop n Image_open output_dir target_size_kb running len_files i [] w = Some w"
| "run_loop n Image_open output_dir target_size_kb running len_files i (file_path # rest) w =
     (if \<not> running i then Some w
      else
        let file_name = basename file_path;
            output_path = join output_dir file_name
        in if \<not> supported file_path
           then run_loop n Image_open output_dir target_size_kb running len_files (Suc i) rest w
           else
             let r = resize_image n Image_open (disk w) file_path output_path target_size_kb
             in case returned r of
                  None \<Rightarrow> None
                | Some (success, file_size) \<Rightarrow>
                    run_loop n Image_open output_dir target_size_kb running len_files (Suc i) rest
                      \<lparr>results = results w @ [(file_path, output_path, success, file_size)],
                       emitted = emitted w @
                         [progress_updated (progress_of i len_files),
                          file_processed file_name success file_size],
                       disk = disk_after r\<rparr>)"

definition run ::
  "nat \<Rightarrow> (string \<Rightarrow> image option) \<Rightarrow> string list \<Rightarrow> string \<Rightarrow> int \<times> int \<Rightarrow> (nat \<Rightarrow> bool) \<Rightarrow>
   disk \<Rightarrow> worker option" where
  "run n Image_open files output_dir target_size_kb running d =
     (case run_loop n Image_open output_dir target_size_kb running (length files) 0 files
             \<lparr>results = [], emitted = [], disk = d\<rparr> of
        None \<Rightarrow> None
      | Some w \<Rightarrow> Some (w\<lparr>emitted := emitted w @ [resize_completed (results w)]\<rparr>))"

section \<open>Auxiliary notions\<close>

text \<open>The scale factor after \<open>k\<close> executions of line 78, \<^verbatim>\<open>scale_factor *= 0.9\<close>.\<close>

fun decayed :: "nat \<Rightarrow> float" where
  "decayed 0 = 1"
| "decayed (Suc k) = float_mul (decayed k) (binary64 (9 / 10))"

text \<open>The loop states the search can be in: the loop invariant.\<close>

definition reachable :: "int \<Rightarrow> float \<Rightarrow> bool" where
  "reachable q s = (10 \<le> q \<and> q \<le> 95 \<and> 5 dvd q \<and> (\<exists>k\<le>11. s = decayed k))"

text \<open>
  A synthetic image: \<open>stub sz bytes\<close> has the dimensions \<open>sz\<close> and is encoded, whatever
  the buffer, in \<open>bytes quality\<close> bytes.
\<close>

definition stub :: "int \<times> int \<Rightarrow> (int \<Rightarrow> int) \<Rightarrow> image" where
  "stub sz bytes =
     \<lparr>im_format = Some ''JPEG'', im_size = sz, im_save = (\<lambda>b fmt q. Some (bytes q))\<rparr>"

text \<open>
  Resampling as the specification words it: the dimensions
  \<open>(round(orig_w * scale), round(orig_h * scale))\<close>.
\<close>

definition resized_spec :: "int \<times> int \<Rightarrow> float \<Rightarrow> buffer" where
  "resized_spec sz scale =
     (if scale < 1
      then Resize (py_round (float_mul (float_of_int (fst sz)) scale))
                  (py_round (float_mul (float_of_int (snd sz)) scale)) LANCZOS
      else Img)"


text \<open>What a search that gives up below the minimum scale leaves behind.\<close>

definition gives_up :: "image \<Rightarrow> string \<Rightarrow> string \<Rightarrow> int \<Rightarrow> search \<Rightarrow> bool" where
  "gives_up img fmt out mx r =
     (\<exists>sz. im_save img (resized (im_size img) (decayed 11)) fmt 10 = Some sz \<and> mx < sz \<and>
        exit r = Returned False sz \<and> attempts r \<noteq> [] \<and>
        last (attempts r) = attempt_of img 10 (decayed 11) (Some sz) \<and>
        disk_after r out = Some (artifact_of img fmt 10 (decayed 11) sz) \<and>
        disk_after r (out @ ''.temp'') = None)"



text \<open>A synthetic 4000 x 3000 image that is encoded in 500000 bytes at every quality.\<close>

definition photo :: image where
  "photo = stub (4000, 3000) (\<lambda>q. 500000)"

text \<open>
  A synthetic 4000 x 3000 image whose encoded size depends on the buffer and on the
  quality: a tenth of a byte per pixel and quality point.
\<close>

definition poster :: image where
  "poster =
     \<lparr>im_format = Some ''JPEG'', im_size = (4000, 3000),
      im_save = (\<lambda>b fmt q. Some (case b of Img \<Rightarrow> 1200000 * q | Resize w h r \<Rightarrow> w * h * q div 10))\<rparr>"

text \<open>
  Notions for stating what \<^verbatim>\<open>run\<close> reports. The value \<^verbatim>\<open>resize_image\<close> returns does not
  depend on the disk or on the output path, so \<open>halts\<close> and \<open>outcome_of\<close> fix both.
\<close>

definition halts :: "nat \<Rightarrow> (string \<Rightarrow> image option) \<Rightarrow> int \<times> int \<Rightarrow> string \<Rightarrow> bool" where
  "halts n Image_open target_size_kb file_path =
     (exit (resize_image n Image_open Map.empty file_path [] target_size_kb) \<noteq> Out_of_fuel)"

definition outcome_of :: "nat \<Rightarrow> (string \<Rightarrow> image option) \<Rightarrow> int \<times> int \<Rightarrow> string \<Rightarrow> bool \<times> int" where
  "outcome_of n Image_open target_size_kb file_path =
     the (returned (resize_image n Image_open Map.empty file_path [] target_size_kb))"

definition result_of ::
  "nat \<Rightarrow> (string \<Rightarrow> image option) \<Rightarrow> string \<Rightarrow> int \<times> int \<Rightarrow> string \<Rightarrow> file_outcome" where
  "result_of n Image_open output_dir target_size_kb file_path =
     (file_path, join output_dir (basename file_path),
      outcome_of n Image_open target_size_kb file_path)"

definition signals_of ::
  "nat \<Rightarrow> (string \<Rightarrow> image option) \<Rightarrow> int \<times> int \<Rightarrow> nat \<Rightarrow> nat \<times> string \<Rightarrow> signal list" where
  "signals_of n Image_open target_size_kb len_files jf =
     [progress_updated (progress_of (fst jf) len_files),
      file_processed (basename (snd jf))
        (fst (outcome_of n Image_open target_size_kb (snd jf)))
        (snd (outcome_of n Image_open target_size_kb (snd jf)))]"

definition accepted :: "nat \<Rightarrow> string list \<Rightarrow> (nat \<times> string) list" where
  \<comment> \<open>the files that pass the extension filter, with their index in \<^verbatim>\<open>self.files\<close>\<close>
  "accepted i files = filter (\<lambda>jf. supported (snd jf)) (enumerate i files)"

fun percents :: "signal list \<Rightarrow> int list" where
  "percents [] = []"
| "percents (progress_updated p # es) = p # percents es"
| "percents (e # es) = percents es"

fun completions :: "signal list \<Rightarrow> file_outcome list list" where
  "completions [] = []"
| "completions (resize_completed rs # es) = rs # completions es"
| "completions (e # es) = completions es"

text \<open>
  The progress value as the specification words it:
  \<open>round((index + 1) / total_accepted * 100)\<close>.
\<close>

definition progress_spec :: "nat \<Rightarrow> nat \<Rightarrow> int" where
  "progress_spec index total_accepted =
     py_round (float_mul (true_div (int index + 1) (int total_accepted)) (float_of_int 100))"

text \<open>
  The disk after the searches on the supported files of a list, in order, and the paths
  these searches write to: for each file its output path and the temporary file beside it.
\<close>

fun saved ::
  "nat \<Rightarrow> (string \<Rightarrow> image option) \<Rightarrow> string \<Rightarrow> int \<times> int \<Rightarrow> string list \<Rightarrow> disk \<Rightarrow> disk" where
  "saved n Image_open output_dir target_size_kb [] d = d"
| "saved n Image_open output_dir target_size_kb (file_path # rest) d =
     saved n Image_open output_dir target_size_kb rest
       (if supported file_path
        then disk_after (resize_image n Image_open d file_path
               (join output_dir (basename file_path)) target_size_kb)
        else d)"

definition written :: "string \<Rightarrow> string list \<Rightarrow> string set" where
  "written output_dir files =
     (\<Union>file_path\<in>set (filter supported files).
        {join output_dir (basename file_path), join output_dir (basename file_path) @ ''.temp''})"

text \<open>
  A file that cannot be parsed as an image: \<^verbatim>\<open>Image.open\<close> raises, or it returns an image
  (it reads the header only) whose data cannot be decoded, so that the first \<^verbatim>\<open>save\<close>, of
  the original buffer at quality 90, raises.
\<close>

definition undecodable :: "(string \<Rightarrow> image option) \<Rightarrow> string \<Rightarrow> bool" where
  "undecodable Image_open file_path =
     (case Image_open file_path of
        None \<Rightarrow> True
      | Some img \<Rightarrow> im_save img Img (format_or_default img) 90 = None)"

text \<open>A truncated 4000 x 3000 JPEG file: it opens, and no buffer of it can be saved.\<close>

definition cut :: image where
  "cut = \<lparr>im_format = Some ''JPEG'', im_size = (4000, 3000), im_save = (\<lambda>b fmt q. None)\<rparr>"

section \<open>The scale factors of a search\<close>

lemma decay_step_0: "float_mul (1) (binary64 (9 / 10)) = 8106479329266893 / 9007199254740992"
  by code_simp

lemma decay_step_1: "float_mul (8106479329266893 / 9007199254740992) (binary64 (9 / 10)) = 1823957849085051 / 2251799813685248"
  by code_simp

lemma decay_step_2: "float_mul (1823957849085051 / 2251799813685248) (binary64 (9 / 10)) = 820781032088273 / 1125899906842624"
  by code_simp

lemma decay_step_3: "float_mul (820781032088273 / 1125899906842624) (binary64 (9 / 10)) = 2954811715517783 / 4503599627370496"
  by code_simp

lemma decay_step_4: "float_mul (2954811715517783 / 4503599627370496) (binary64 (9 / 10)) = 2659330543966005 / 4503599627370496"
  by code_simp

lemma decay_step_5: "float_mul (2659330543966005 / 4503599627370496) (binary64 (9 / 10)) = 4786794979138809 / 9007199254740992"
  by code_simp

lemma decay_step_6: "float_mul (4786794979138809 / 9007199254740992) (binary64 (9 / 10)) = 134628608788279 / 281474976710656"
  by code_simp

lemma decay_step_7: "float_mul (134628608788279 / 281474976710656) (binary64 (9 / 10)) = 7754607866204871 / 18014398509481984"
  by code_simp

lemma decay_step_8: "float_mul (7754607866204871 / 18014398509481984) (binary64 (9 / 10)) = 54524586559253 / 140737488355328"
  by code_simp

lemma decay_step_9: "float_mul (54524586559253 / 140737488355328) (binary64 (9 / 10)) = 3140616185812973 / 9007199254740992"
  by code_simp

lemma decay_step_10: "float_mul (3140616185812973 / 9007199254740992) (binary64 (9 / 10)) = 706638641807919 / 2251799813685248"
  by code_simp

lemma decay_step_11: "float_mul (706638641807919 / 2251799813685248) (binary64 (9 / 10)) = 5087798221017017 / 18014398509481984"
  by code_simp

lemma c03: "binary64 (3 / 10) = 5404319552844595 / 18014398509481984"
  by code_simp

lemma decayed_vals:
  "decayed 0 = 1"
  "decayed 1 = 8106479329266893 / 9007199254740992"
  "decayed 2 = 1823957849085051 / 2251799813685248"
  "decayed 3 = 820781032088273 / 1125899906842624"
  "decayed 4 = 2954811715517783 / 4503599627370496"
  "decayed 5 = 2659330543966005 / 4503599627370496"
  "decayed 6 = 4786794979138809 / 9007199254740992"
  "decayed 7 = 134628608788279 / 281474976710656"
  "decayed 8 = 7754607866204871 / 18014398509481984"
  "decayed 9 = 54524586559253 / 140737488355328"
  "decayed 10 = 3140616185812973 / 9007199254740992"
  "decayed 11 = 706638641807919 / 2251799813685248"
  "decayed 12 = 5087798221017017 / 18014398509481984"
  by (simp_all add: numeral_eq_Suc decay_step_0 decay_step_1 decay_step_2 decay_step_3 decay_step_4 decay_step_5 decay_step_6 decay_step_7 decay_step_8 decay_step_9 decay_step_10 decay_step_11)

section \<open>Rounding to binary64 is monotone\<close>

lemma bit_length_bounds:
  "0 < n \<Longrightarrow> 2 ^ (bit_length n - 1) \<le> n \<and> n < 2 ^ bit_length n"
proof (induction n rule: bit_length.induct)
  case (1 n)
  show ?case
  proof (cases "n div 2 = 0")
    case True
    with "1.prems" have "n = 1" by (simp add: div_eq_0_iff)
    moreover have "bit_length (Suc 0) = Suc 0"
      by (simp add: bit_length.simps[of "Suc 0"] bit_length.simps[of 0])
    ultimately show ?thesis by simp
  next
    case False
    then have m: "0 < n div 2" by simp
    from "1.IH"[OF _ m] "1.prems"
    have ih: "2 ^ (bit_length (n div 2) - 1) \<le> n div 2" "n div 2 < 2 ^ bit_length (n div 2)"
      by simp_all
    have bl: "bit_length n = Suc (bit_length (n div 2))"
      using "1.prems" by (subst bit_length.simps) simp
    have pos: "0 < bit_length (n div 2)"
      using m by (subst bit_length.simps) simp
    have "(2::nat) ^ bit_length (n div 2) = 2 * 2 ^ (bit_length (n div 2) - 1)"
      using pos by (cases "bit_length (n div 2)") simp_all
    with ih(1) have "2 ^ bit_length (n div 2) \<le> 2 * (n div 2)" by simp
    also have "\<dots> \<le> n" by simp
    finally have lo: "2 ^ (bit_length n - 1) \<le> n" unfolding bl by simp
    from ih(2) have "Suc (n div 2) \<le> 2 ^ bit_length (n div 2)" by simp
    then have "2 * Suc (n div 2) \<le> 2 * 2 ^ bit_length (n div 2)" by (rule mult_le_mono2)
    moreover have "n < 2 * Suc (n div 2)" by simp
    ultimately have hi: "n < 2 ^ bit_length n" unfolding bl by simp
    from lo hi show ?thesis ..
  qed
qed

lemma pow2_pos: "0 < pow2 e"
  by (simp add: pow2_def)

lemma pow2_Suc: "pow2 (e + 1) = 2 * pow2 e"
proof (cases "0 \<le> e")
  case True
  then show ?thesis by (simp add: pow2_def nat_add_distrib)
next
  case False
  then have "nat (- e) = Suc (nat (- (e + 1)))" by simp
  then have "(2::rat) ^ nat (- e) = 2 * 2 ^ nat (- (e + 1))" by simp
  with False show ?thesis by (auto simp: pow2_def)
qed

lemma pow2_add_nat: "pow2 (e + int k) = 2 ^ k * pow2 e"
proof (induction k)
  case 0
  then show ?case by simp
next
  case (Suc k)
  have "e + int (Suc k) = (e + int k) + 1" by simp
  then have "pow2 (e + int (Suc k)) = pow2 ((e + int k) + 1)" by (rule arg_cong)
  also have "\<dots> = 2 * pow2 (e + int k)" by (rule pow2_Suc)
  finally show ?case using Suc by simp
qed

lemma pow2_mono: "e \<le> e' \<Longrightarrow> pow2 e \<le> pow2 e'"
proof -
  assume "e \<le> e'"
  then obtain k where "e' = e + int k" using zle_iff_zadd by blast
  moreover have "(1::rat) \<le> 2 ^ k" by simp
  ultimately show ?thesis
    using pow2_pos[of e] by (simp add: pow2_add_nat mult_le_cancel_right1)
qed

lemma bit_length_pos: "0 < n \<Longrightarrow> 0 < bit_length n"
  by (subst bit_length.simps) simp

lemma ilog2_bounds:
  assumes "0 < x"
  shows "pow2 (ilog2 x) \<le> x \<and> x < pow2 (ilog2 x + 1)"
proof (cases "1 \<le> x")
  case True
  define n where "n = nat \<lfloor>x\<rfloor>"
  define b where "b = bit_length n"
  from True have fl: "1 \<le> \<lfloor>x\<rfloor>" by simp
  then have n: "0 < n" "rat_of_nat n = of_int \<lfloor>x\<rfloor>" by (simp_all add: n_def)
  from bit_length_bounds[OF n(1)] have lo: "2 ^ (b - 1) \<le> n" and hi: "n < 2 ^ b"
    by (simp_all add: b_def)
  have b: "0 < b" using bit_length_pos[OF n(1)] by (simp add: b_def)
  have il: "ilog2 x = int b - 1" using True by (simp add: ilog2_def n_def b_def)
  have p1: "pow2 (int b - 1) = 2 ^ (b - 1)"
    using b by (simp add: pow2_def nat_diff_distrib')
  have p2: "pow2 (int b - 1 + 1) = 2 ^ b"
    by (simp add: pow2_def)
  from lo have "rat_of_nat (2 ^ (b - 1)) \<le> rat_of_nat n" by (rule of_nat_mono)
  then have "(2::rat) ^ (b - 1) \<le> of_int \<lfloor>x\<rfloor>" using n(2) by simp
  also have "\<dots> \<le> x" by simp
  finally have 1: "pow2 (ilog2 x) \<le> x" unfolding il p1 .
  from hi have "Suc n \<le> 2 ^ b" by simp
  then have "rat_of_nat (Suc n) \<le> rat_of_nat (2 ^ b)" by (rule of_nat_mono)
  then have "of_int \<lfloor>x\<rfloor> + 1 \<le> (2::rat) ^ b" using n(2) by simp
  moreover have "x < of_int \<lfloor>x\<rfloor> + 1" by linarith
  ultimately have 2: "x < pow2 (ilog2 x + 1)" unfolding il p2 by simp
  from 1 2 show ?thesis ..
next
  case False
  define y where "y = 1 / x"
  define m where "m = nat (\<lceil>y\<rceil> - 1)"
  define b where "b = bit_length m"
  from False assms have y1: "1 < y" by (simp add: y_def)
  then have c: "2 \<le> \<lceil>y\<rceil>" by (simp add: le_ceiling_iff)
  then have m: "0 < m" "rat_of_nat m = of_int \<lceil>y\<rceil> - 1" by (simp_all add: m_def)
  from bit_length_bounds[OF m(1)] have lo: "2 ^ (b - 1) \<le> m" and hi: "m < 2 ^ b"
    by (simp_all add: b_def)
  have b: "0 < b" using bit_length_pos[OF m(1)] by (simp add: b_def)
  have il: "ilog2 x = - int b" using False by (simp add: ilog2_def m_def b_def y_def)
  have p1: "pow2 (- int b) = 1 / 2 ^ b"
    using b by (simp add: pow2_def)
  have p2: "pow2 (- int b + 1) = 1 / 2 ^ (b - 1)"
  proof (cases "b = 1")
    case True
    then show ?thesis by (simp add: pow2_def)
  next
    case False
    with b have "\<not> 0 \<le> - int b + 1" "nat (- (- int b + 1)) = b - 1" by simp_all
    then show ?thesis by (simp add: pow2_def)
  qed
  have xy: "x = 1 / y" using assms by (simp add: y_def)
  have ypos: "0 < y" using y1 by simp
  from hi have "Suc m \<le> 2 ^ b" by simp
  then have "rat_of_nat (Suc m) \<le> rat_of_nat (2 ^ b)" by (rule of_nat_mono)
  then have "of_int \<lceil>y\<rceil> \<le> (2::rat) ^ b" using m(2) by simp
  moreover have "y \<le> of_int \<lceil>y\<rceil>" by simp
  ultimately have "y \<le> 2 ^ b" by linarith
  then have "1 / 2 ^ b \<le> 1 / y" using ypos by (simp add: frac_le)
  then have "pow2 (- int b) \<le> 1 / y" by (simp only: p1)
  then have 1: "pow2 (ilog2 x) \<le> x" by (simp only: il xy[symmetric])
  from lo have "rat_of_nat (2 ^ (b - 1)) \<le> rat_of_nat m" by (rule of_nat_mono)
  then have "(2::rat) ^ (b - 1) \<le> of_int \<lceil>y\<rceil> - 1" using m(2) by simp
  moreover have "of_int \<lceil>y\<rceil> - 1 < y" by linarith
  ultimately have "(2::rat) ^ (b - 1) < y" by linarith
  then have "1 / y < 1 / 2 ^ (b - 1)" by (simp add: frac_less2)
  then have "1 / y < pow2 (- int b + 1)" by (simp only: p2)
  then have 2: "x < pow2 (ilog2 x + 1)" by (simp only: il xy[symmetric])
  from 1 2 show ?thesis ..
qed

lemma ilog2_mono:
  assumes "0 < x" and "x \<le> y"
  shows "ilog2 x \<le> ilog2 y"
proof (rule ccontr)
  assume "\<not> ilog2 x \<le> ilog2 y"
  then have "ilog2 y + 1 \<le> ilog2 x" by simp
  then have "pow2 (ilog2 y + 1) \<le> pow2 (ilog2 x)" by (rule pow2_mono)
  moreover have "pow2 (ilog2 x) \<le> x" using ilog2_bounds[OF assms(1)] by blast
  moreover have "y < pow2 (ilog2 y + 1)" using ilog2_bounds[of y] assms by simp
  ultimately show False using assms(2) by linarith
qed

lemma round_half_even_bounds: "\<lfloor>x\<rfloor> \<le> round_half_even x \<and> round_half_even x \<le> \<lfloor>x\<rfloor> + 1"
  by (simp add: round_half_even_def Let_def)

lemma round_half_even_of_int: "round_half_even (of_int k) = k"
  by (simp add: round_half_even_def Let_def)

lemma round_half_even_mono:
  assumes "x \<le> y"
  shows "round_half_even x \<le> round_half_even y"
proof (cases "\<lfloor>x\<rfloor> = \<lfloor>y\<rfloor>")
  case True
  have "x - of_int \<lfloor>y\<rfloor> \<le> y - of_int \<lfloor>y\<rfloor>" using assms by simp
  then show ?thesis
    unfolding round_half_even_def Let_def True by auto
next
  case False
  with assms have "\<lfloor>x\<rfloor> + 1 \<le> \<lfloor>y\<rfloor>" using floor_mono[OF assms] by simp
  with round_half_even_bounds[of x] round_half_even_bounds[of y] show ?thesis by linarith
qed

lemma binary64_pos:
  "0 < x \<Longrightarrow> binary64 x = of_int (round_half_even (x / pow2 (ilog2 x - 52))) * pow2 (ilog2 x - 52)"
  by (simp add: binary64_def Let_def)

lemma pow2_52: "pow2 e = 2 ^ 52 * pow2 (e - 52)"
  using pow2_add_nat[of "e - 52" 52] by simp

lemma binary64_range:
  assumes "0 < x"
  shows "pow2 (ilog2 x) \<le> binary64 x \<and> binary64 x \<le> pow2 (ilog2 x + 1)"
proof -
  let ?u = "pow2 (ilog2 x - 52)"
  have u: "0 < ?u" by (rule pow2_pos)
  from ilog2_bounds[OF assms] have lo: "2 ^ 52 * ?u \<le> x" and hi: "x < 2 ^ 53 * ?u"
    using pow2_52[of "ilog2 x"] pow2_52[of "ilog2 x + 1"] pow2_Suc[of "ilog2 x - 52"]
    by (simp_all add: algebra_simps)
  from lo u have "2 ^ 52 \<le> x / ?u" by (simp add: pos_le_divide_eq)
  then have "round_half_even (of_int (2 ^ 52)) \<le> round_half_even (x / ?u)"
    by (intro round_half_even_mono) simp
  then have a: "2 ^ 52 \<le> round_half_even (x / ?u)" by (simp only: round_half_even_of_int)
  from hi u have "x / ?u \<le> 2 ^ 53" by (simp add: pos_divide_le_eq)
  then have "round_half_even (x / ?u) \<le> round_half_even (of_int (2 ^ 53))"
    by (intro round_half_even_mono) simp
  then have b: "round_half_even (x / ?u) \<le> 2 ^ 53" by (simp only: round_half_even_of_int)
  from a have "rat_of_int (2 ^ 52) \<le> of_int (round_half_even (x / ?u))" by (rule of_int_le_iff[THEN iffD2])
  then have "2 ^ 52 * ?u \<le> of_int (round_half_even (x / ?u)) * ?u"
    using u by (simp add: mult_le_cancel_right)
  then have 1: "pow2 (ilog2 x) \<le> binary64 x"
    unfolding binary64_pos[OF assms] using pow2_52[of "ilog2 x"] by simp
  from b have "of_int (round_half_even (x / ?u)) \<le> rat_of_int (2 ^ 53)" by (rule of_int_le_iff[THEN iffD2])
  then have "of_int (round_half_even (x / ?u)) * ?u \<le> 2 ^ 53 * ?u"
    using u by (simp add: mult_le_cancel_right)
  then have 2: "binary64 x \<le> pow2 (ilog2 x + 1)"
    unfolding binary64_pos[OF assms] using pow2_52[of "ilog2 x + 1"] pow2_Suc[of "ilog2 x - 52"]
    by (simp add: algebra_simps)
  from 1 2 show ?thesis ..
qed

lemma binary64_mono_pos:
  assumes "0 < x" and "x \<le> y"
  shows "binary64 x \<le> binary64 y"
proof (cases "ilog2 x = ilog2 y")
  case True
  let ?u = "pow2 (ilog2 y - 52)"
  have u: "0 < ?u" by (rule pow2_pos)
  from assms(2) u have "x / ?u \<le> y / ?u" by (simp add: divide_right_mono)
  then have "round_half_even (x / ?u) \<le> round_half_even (y / ?u)" by (rule round_half_even_mono)
  then have "rat_of_int (round_half_even (x / ?u)) * ?u \<le> of_int (round_half_even (y / ?u)) * ?u"
    using u by (simp add: mult_le_cancel_right)
  then show ?thesis
    using assms binary64_pos[of x] binary64_pos[of y] True by simp
next
  case False
  with ilog2_mono[OF assms] have "ilog2 x + 1 \<le> ilog2 y" by simp
  then have "pow2 (ilog2 x + 1) \<le> pow2 (ilog2 y)" by (rule pow2_mono)
  moreover have "binary64 x \<le> pow2 (ilog2 x + 1)" using binary64_range[OF assms(1)] by blast
  moreover have "pow2 (ilog2 y) \<le> binary64 y" using binary64_range[of y] assms by simp
  ultimately show ?thesis by linarith
qed

lemma binary64_nonneg: "0 \<le> x \<Longrightarrow> 0 \<le> binary64 x"
proof (cases "x = 0")
  case True
  then show ?thesis by (simp add: binary64_def)
next
  case False
  assume "0 \<le> x"
  with False have x: "0 < x" by simp
  from binary64_range[OF x] pow2_pos[of "ilog2 x"] show ?thesis by linarith
qed

lemma binary64_mono:
  assumes "0 \<le> x" and "x \<le> y"
  shows "binary64 x \<le> binary64 y"
proof (cases "x = 0")
  case True
  then show ?thesis using binary64_nonneg[of y] assms by (simp add: binary64_def)
next
  case False
  with assms(1) have "0 < x" by simp
  then show ?thesis using assms(2) by (rule binary64_mono_pos)
qed

section \<open>The search loop, step by step\<close>

lemma resize_loop_None:
  "im_save img (resized (im_size img) s) fmt q = None \<Longrightarrow>
   resize_loop (Suc n) img fmt out mn mx q s d =
     \<lparr>attempts = [attempt_of img q s None], exit = Raised, disk_after = d\<rparr>"
  by simp

lemma resize_loop_Done:
  "im_save img (resized (im_size img) s) fmt q = Some fs \<Longrightarrow> adjust mn mx q s fs = Done ok sz \<Longrightarrow>
   resize_loop (Suc n) img fmt out mn mx q s d =
     \<lparr>attempts = [attempt_of img q s (Some fs)], exit = Returned ok sz,
      disk_after = shutil_move (d(out @ ''.temp'' \<mapsto> artifact_of img fmt q s fs)) (out @ ''.temp'') out\<rparr>"
  by (simp add: Let_def)

lemma resize_loop_Again:
  "im_save img (resized (im_size img) s) fmt q = Some fs \<Longrightarrow> adjust mn mx q s fs = Again q' s' \<Longrightarrow>
   resize_loop (Suc n) img fmt out mn mx q s d =
     (resize_loop n img fmt out mn mx q' s'
        (os_remove_if_exists (d(out @ ''.temp'' \<mapsto> artifact_of img fmt q s fs)) (out @ ''.temp'')))
     \<lparr>attempts := attempt_of img q s (Some fs) #
        attempts (resize_loop n img fmt out mn mx q' s'
          (os_remove_if_exists (d(out @ ''.temp'' \<mapsto> artifact_of img fmt q s fs)) (out @ ''.temp'')))\<rparr>"
  by (simp add: Let_def)

declare resize_loop.simps(2) [simp del]

lemma decayed_Suc_11: "decayed (Suc 11) < binary64 (3 / 10)"
proof -
  have "float_mul (decayed 11) (binary64 (9 / 10)) = 5087798221017017 / 18014398509481984"
    by (simp only: decayed_vals(12) decay_step_11)
  then show ?thesis by (simp only: decayed.simps) (simp add: c03)
qed

lemma adjust_Done_eq: "adjust mn mx q s fs = Done ok sz \<Longrightarrow> sz = fs"
  by (auto simp: adjust_def Let_def split: if_splits)

lemma adjust_reachable:
  assumes "adjust mn mx q s fs = Again q' s'" and "reachable q s"
  shows "reachable q' s'"
proof -
  from assms(2) obtain k where k: "k \<le> 11" "s = decayed k" and q: "10 \<le> q" "q \<le> 95" "5 dvd q"
    by (auto simp: reachable_def)
  from assms(1) consider
      (dec) "q' = q - 5" "s' = s" "q > 10"
    | (inc) "q' = q + 5" "s' = s" "q < 95"
    | (scale) "q' = q" "s' = decayed (Suc k)" "\<not> decayed (Suc k) < binary64 (3 / 10)"
    by (auto simp: adjust_def Let_def min_quality_def k split: if_splits)
  then show ?thesis
  proof cases
    case dec
    with q k show ?thesis unfolding reachable_def by (intro conjI; (presburger | blast))
  next
    case inc
    with q k show ?thesis unfolding reachable_def by (intro conjI; (presburger | blast))
  next
    case scale
    have "k \<noteq> 11" using scale(3) decayed_Suc_11 by blast
    with k have "Suc k \<le> 11" by simp
    with scale q show ?thesis unfolding reachable_def by blast
  qed
qed

lemma attempts_reachable:
  "reachable q s \<Longrightarrow> a \<in> set (attempts (resize_loop n img fmt out mn mx q s d)) \<Longrightarrow>
   reachable (at_quality a) (at_scale a) \<and> at_buffer a = resized (im_size img) (at_scale a)"
proof (induction n arbitrary: q s d)
  case 0
  then show ?case by simp
next
  case (Suc n)
  show ?case
  proof (cases "im_save img (resized (im_size img) s) fmt q")
    case None
    with Suc.prems show ?thesis by (simp add: resize_loop_None attempt_of_def)
  next
    case (Some fs)
    show ?thesis
    proof (cases "adjust mn mx q s fs")
      case (Done ok sz)
      with Suc.prems show ?thesis by (simp add: resize_loop_Done[OF Some Done] attempt_of_def)
    next
      case (Again q' s')
      then have r: "reachable q' s'" using Suc.prems(1) by (rule adjust_reachable)
      from Suc.prems(2) have "a = attempt_of img q s (Some fs) \<or>
          a \<in> set (attempts (resize_loop n img fmt out mn mx q' s'
            (os_remove_if_exists (d(out @ ''.temp'' \<mapsto> artifact_of img fmt q s fs)) (out @ ''.temp''))))"
        by (simp add: resize_loop_Again[OF Some Again])
      then show ?thesis
      proof
        assume "a = attempt_of img q s (Some fs)"
        with Suc.prems(1) show ?thesis by (simp add: attempt_of_def)
      next
        assume "a \<in> set (attempts (resize_loop n img fmt out mn mx q' s'
            (os_remove_if_exists (d(out @ ''.temp'' \<mapsto> artifact_of img fmt q s fs)) (out @ ''.temp''))))"
        with Suc.IH[OF r] show ?thesis by blast
      qed
    qed
  qed
qed

lemma reachable_init: "reachable 90 1"
  unfolding reachable_def using decayed_vals(1) by (intro conjI; (simp | blast)?) (rule exI[of _ 0], simp)

lemma le_11_cases:
  "k \<le> (11::nat) \<Longrightarrow> k = 0 \<or> k = 1 \<or> k = 2 \<or> k = 3 \<or> k = 4 \<or> k = 5 \<or> k = 6 \<or>
     k = 7 \<or> k = 8 \<or> k = 9 \<or> k = 10 \<or> k = 11"
  by presburger

lemma decayed_bounds: "k \<le> 11 \<Longrightarrow> binary64 (3 / 10) \<le> decayed k \<and> decayed k \<le> 1"
proof -
  assume "k \<le> 11"
  then consider "k = 0" | "k = 1" | "k = 2" | "k = 3" | "k = 4" | "k = 5" | "k = 6"
    | "k = 7" | "k = 8" | "k = 9" | "k = 10" | "k = 11" using le_11_cases by blast
  then show ?thesis
    by cases (simp_all add: decayed_vals decayed_vals(2)[unfolded One_nat_def] c03 del: decayed.simps(2))
qed

lemma decayed_below_1: "1 \<le> k \<Longrightarrow> k \<le> 11 \<Longrightarrow> decayed k < 1"
proof -
  assume "1 \<le> k" "k \<le> 11"
  then consider "k = 1" | "k = 2" | "k = 3" | "k = 4" | "k = 5" | "k = 6"
    | "k = 7" | "k = 8" | "k = 9" | "k = 10" | "k = 11" using le_11_cases[of k] by force
  then show ?thesis
    by cases (simp_all add: decayed_vals decayed_vals(2)[unfolded One_nat_def] del: decayed.simps(2))
qed

lemma reachable_bounds:
  "reachable q s \<Longrightarrow> 10 \<le> q \<and> q \<le> 95 \<and> 0 < s \<and> s \<le> 1"
proof -
  assume r: "reachable q s"
  then obtain k where "k \<le> 11" "s = decayed k" by (auto simp: reachable_def)
  with decayed_bounds[of k] have "binary64 (3 / 10) \<le> s" "s \<le> 1" by auto
  moreover have "0 < binary64 (3 / 10)" by (simp add: c03)
  ultimately show ?thesis using r by (auto simp: reachable_def)
qed


lemma resized_1: "resized sz 1 = Img"
  by (simp add: resized_def)

lemma moved_output:
  "shutil_move (d(out @ ''.temp'' \<mapsto> art)) (out @ ''.temp'') out out = Some art"
  "shutil_move (d(out @ ''.temp'' \<mapsto> art)) (out @ ''.temp'') out (out @ ''.temp'') = None"
  by (simp_all add: shutil_move_def)

lemma adjust_True:
  "adjust mn mx q s fs = Done True sz \<Longrightarrow> q \<le> 95 \<Longrightarrow>
   sz = fs \<and> (mn \<le> fs \<and> fs \<le> mx \<or> fs < mn \<and> q = 95)"
  by (auto simp: adjust_def Let_def split: if_splits)

lemma adjust_accept:
  "mn \<le> mx \<Longrightarrow> mn \<le> fs \<and> fs \<le> mx \<or> fs < mn \<and> q = 95 \<Longrightarrow>
   adjust mn mx q s fs = Done True fs"
  by (auto simp: adjust_def Let_def)

lemma loop_True_last:
  "reachable q s \<Longrightarrow> exit (resize_loop n img fmt out mn mx q s d) = Returned True sz \<Longrightarrow>
   attempts (resize_loop n img fmt out mn mx q s d) \<noteq> [] \<and>
   at_bytes (last (attempts (resize_loop n img fmt out mn mx q s d))) = Some sz \<and>
   (mn \<le> sz \<and> sz \<le> mx \<or>
    sz < mn \<and> at_quality (last (attempts (resize_loop n img fmt out mn mx q s d))) = 95)"
proof (induction n arbitrary: q s d)
  case 0
  then show ?case by simp
next
  case (Suc n)
  show ?case
  proof (cases "im_save img (resized (im_size img) s) fmt q")
    case None
    with Suc.prems show ?thesis by (simp add: resize_loop_None)
  next
    case (Some fs)
    show ?thesis
    proof (cases "adjust mn mx q s fs")
      case (Done ok sz')
      with Suc.prems(2) have eq: "ok = True" "sz' = sz"
        by (simp_all add: resize_loop_Done[OF Some Done])
      have "q \<le> 95" using Suc.prems(1) by (simp add: reachable_def)
      with adjust_True[of mn mx q s fs sz] Done eq
      show ?thesis by (auto simp add: resize_loop_Done[OF Some Done] attempt_of_def)
    next
      case (Again q' s')
      let ?r = "resize_loop n img fmt out mn mx q' s'
          (os_remove_if_exists (d(out @ ''.temp'' \<mapsto> artifact_of img fmt q s fs)) (out @ ''.temp''))"
      have r: "reachable q' s'" using Again Suc.prems(1) by (rule adjust_reachable)
      from Suc.prems(2) have "exit ?r = Returned True sz"
        by (simp add: resize_loop_Again[OF Some Again])
      from Suc.IH[OF r this] show ?thesis
        by (simp add: resize_loop_Again[OF Some Again])
    qed
  qed
qed

lemma loop_accepting_attempt:
  "mn \<le> mx \<Longrightarrow> a \<in> set (attempts (resize_loop n img fmt out mn mx q s d)) \<Longrightarrow>
   at_bytes a = Some sz \<Longrightarrow> mn \<le> sz \<and> sz \<le> mx \<or> sz < mn \<and> at_quality a = 95 \<Longrightarrow>
   exit (resize_loop n img fmt out mn mx q s d) = Returned True sz \<and>
   disk_after (resize_loop n img fmt out mn mx q s d) out =
     Some \<lparr>art_buffer = at_buffer a, art_format = fmt, art_quality = at_quality a, art_bytes = sz\<rparr> \<and>
   disk_after (resize_loop n img fmt out mn mx q s d) (out @ ''.temp'') = None"
proof (induction n arbitrary: q s d)
  case 0
  then show ?case by simp
next
  case (Suc n)
  show ?case
  proof (cases "im_save img (resized (im_size img) s) fmt q")
    case None
    with Suc.prems show ?thesis by (auto simp add: resize_loop_None attempt_of_def)
  next
    case (Some fs)
    show ?thesis
    proof (cases "adjust mn mx q s fs")
      case (Done ok sz')
      from Suc.prems(2) have a: "a = attempt_of img q s (Some fs)"
        by (simp add: resize_loop_Done[OF Some Done])
      with Suc.prems(3) have fs: "fs = sz" by (simp add: attempt_of_def)
      from adjust_accept[OF Suc.prems(1), of fs q s] Suc.prems(4) a fs Done
      have "ok = True" "sz' = sz" by (auto simp: attempt_of_def)
      then show ?thesis
        by (simp add: resize_loop_Done[OF Some Done] moved_output a fs attempt_of_def artifact_of_def)
    next
      case (Again q' s')
      let ?r = "resize_loop n img fmt out mn mx q' s'
          (os_remove_if_exists (d(out @ ''.temp'' \<mapsto> artifact_of img fmt q s fs)) (out @ ''.temp''))"
      have "a \<noteq> attempt_of img q s (Some fs)"
      proof
        assume a: "a = attempt_of img q s (Some fs)"
        with Suc.prems(3) have fs: "fs = sz" by (simp add: attempt_of_def)
        from adjust_accept[OF Suc.prems(1), of fs q s] Suc.prems(4) a fs
        have "adjust mn mx q s fs = Done True fs" by (auto simp: attempt_of_def)
        with Again show False by simp
      qed
      with Suc.prems(2) have "a \<in> set (attempts ?r)"
        by (simp add: resize_loop_Again[OF Some Again])
      from Suc.IH[OF Suc.prems(1) this Suc.prems(3) Suc.prems(4)] show ?thesis
        by (simp add: resize_loop_Again[OF Some Again])
    qed
  qed
qed

lemma stub_simps [simp]:
  "im_save (stub sz bytes) b fmt q = Some (bytes q)"
  "im_size (stub sz bytes) = sz"
  "format_or_default (stub sz bytes) = ''JPEG''"
  by (simp_all add: stub_def format_or_default_def)


lemma adjust_too_large_quality:
  "mx < fs \<Longrightarrow> 10 < q \<Longrightarrow> adjust mn mx q s fs = Again (q - 5) s"
  by (simp add: adjust_def min_quality_def)

lemma adjust_too_large_scale:
  "mx < fs \<Longrightarrow> \<not> float_mul s (binary64 (9 / 10)) < binary64 (3 / 10) \<Longrightarrow>
   adjust mn mx 10 s fs = Again 10 (float_mul s (binary64 (9 / 10)))"
  by (simp add: adjust_def min_quality_def)

lemma adjust_give_up:
  "mx < fs \<Longrightarrow> float_mul s (binary64 (9 / 10)) < binary64 (3 / 10) \<Longrightarrow>
   adjust mn mx 10 s fs = Done False fs"
  by (simp add: adjust_def min_quality_def)

lemma gives_up_Again:
  assumes "im_save img (resized (im_size img) s) fmt q = Some fs"
    and "adjust mn mx q s fs = Again q' s'"
    and "gives_up img fmt out mx
      (resize_loop n img fmt out mn mx q' s'
        (os_remove_if_exists (d(out @ ''.temp'' \<mapsto> artifact_of img fmt q s fs)) (out @ ''.temp'')))"
  shows "gives_up img fmt out mx (resize_loop (Suc n) img fmt out mn mx q s d)"
  using assms(3) unfolding gives_up_def resize_loop_Again[OF assms(1,2)] by auto

lemma length_Again:
  assumes "im_save img (resized (im_size img) s) fmt q = Some fs"
    and "adjust mn mx q s fs = Again q' s'"
  shows "length (attempts (resize_loop (Suc n) img fmt out mn mx q s d)) =
    Suc (length (attempts (resize_loop n img fmt out mn mx q' s'
        (os_remove_if_exists (d(out @ ''.temp'' \<mapsto> artifact_of img fmt q s fs)) (out @ ''.temp'')))))"
  by (simp add: resize_loop_Again[OF assms])

lemma too_large_scale_run:
  assumes big: "\<And>k. k \<le> 11 \<Longrightarrow>
      \<exists>sz. im_save img (resized (im_size img) (decayed k)) fmt 10 = Some sz \<and> mx < sz"
  shows "k + j = 11 \<Longrightarrow>
    gives_up img fmt out mx (resize_loop (Suc j + m) img fmt out mn mx 10 (decayed k) d) \<and>
    length (attempts (resize_loop (Suc j + m) img fmt out mn mx 10 (decayed k) d)) = Suc j"
proof (induction j arbitrary: k d)
  case 0
  then have k: "k = 11" by simp
  from big[of 11]
  obtain fs where fs: "im_save img (resized (im_size img) (decayed 11)) fmt 10 = Some fs" "mx < fs"
    by auto
  have "float_mul (decayed 11) (binary64 (9 / 10)) < binary64 (3 / 10)"
    using decayed_Suc_11 by (simp only: decayed.simps)
  with fs(2) have "adjust mn mx 10 (decayed 11) fs = Done False fs" by (rule adjust_give_up)
  from resize_loop_Done[OF fs(1) this] fs show ?case
    unfolding k gives_up_def by (simp add: moved_output)
next
  case (Suc j)
  then have k: "Suc k + j = 11" "Suc k \<le> 11" by simp_all
  from k(2) have "k \<le> 11" by simp
  from big[OF this]
  obtain fs where fs: "im_save img (resized (im_size img) (decayed k)) fmt 10 = Some fs" "mx < fs"
    by auto
  have "\<not> decayed (Suc k) < binary64 (3 / 10)"
    using decayed_bounds[OF k(2)] by simp
  then have "\<not> float_mul (decayed k) (binary64 (9 / 10)) < binary64 (3 / 10)" by simp
  with fs(2) have a: "adjust mn mx 10 (decayed k) fs = Again 10 (decayed (Suc k))"
    using adjust_too_large_scale by simp
  let ?d = "os_remove_if_exists (d(out @ ''.temp'' \<mapsto> artifact_of img fmt 10 (decayed k) fs))
      (out @ ''.temp'')"
  from Suc.IH[OF k(1), of ?d]
  have ih: "gives_up img fmt out mx (resize_loop (Suc j + m) img fmt out mn mx 10 (decayed (Suc k)) ?d)"
    "length (attempts (resize_loop (Suc j + m) img fmt out mn mx 10 (decayed (Suc k)) ?d)) = Suc j"
    by blast+
  have f: "Suc (Suc j) + m = Suc (Suc j + m)" by simp
  have "gives_up img fmt out mx (resize_loop (Suc (Suc j + m)) img fmt out mn mx 10 (decayed k) d)"
    using ih(1) by (rule gives_up_Again[OF fs(1) a])
  moreover have "length (attempts (resize_loop (Suc (Suc j + m)) img fmt out mn mx 10 (decayed k) d))
      = Suc (Suc j)"
    unfolding length_Again[OF fs(1) a] ih(2) ..
  ultimately show ?case unfolding f by blast
qed

lemma too_large_quality_run:
  assumes big: "\<And>k. k \<le> 11 \<Longrightarrow>
      \<exists>sz. im_save img (resized (im_size img) (decayed k)) fmt 10 = Some sz \<and> mx < sz"
    and bigq: "\<And>j. j \<le> 16 \<Longrightarrow>
      \<exists>sz. im_save img (resized (im_size img) 1) fmt (10 + 5 * int j) = Some sz \<and> mx < sz"
  shows "i \<le> 16 \<Longrightarrow>
    gives_up img fmt out mx (resize_loop (i + 12 + m) img fmt out mn mx (10 + 5 * int i) 1 d) \<and>
    length (attempts (resize_loop (i + 12 + m) img fmt out mn mx (10 + 5 * int i) 1 d)) = i + 12"
proof (induction i arbitrary: d)
  case 0
  from too_large_scale_run[where img = img and fmt = fmt and mx = mx and k = 0 and j = 11
      and out = out and m = m and mn = mn and d = d, OF big]
  show ?case by simp
next
  case (Suc i)
  let ?q = "10 + 5 * int (Suc i)"
  have q: "10 < ?q" "?q \<le> 90" using Suc.prems by simp_all
  from bigq[OF Suc.prems]
  obtain fs where fs: "im_save img (resized (im_size img) 1) fmt ?q = Some fs" "mx < fs"
    by auto
  have a: "adjust mn mx ?q 1 fs = Again (10 + 5 * int i) 1"
    using adjust_too_large_quality[OF fs(2) q(1), of mn 1] by simp
  have f: "Suc i + 12 + m = Suc (i + 12 + m)" by simp
  from Suc.prems have "i \<le> 16" by simp
  let ?d = "os_remove_if_exists (d(out @ ''.temp'' \<mapsto> artifact_of img fmt ?q 1 fs))
      (out @ ''.temp'')"
  from Suc.IH[OF \<open>i \<le> 16\<close>, of ?d]
  have ih: "gives_up img fmt out mx (resize_loop (i + 12 + m) img fmt out mn mx (10 + 5 * int i) 1 ?d)"
    "length (attempts (resize_loop (i + 12 + m) img fmt out mn mx (10 + 5 * int i) 1 ?d)) = i + 12"
    by blast+
  have "gives_up img fmt out mx (resize_loop (Suc (i + 12 + m)) img fmt out mn mx ?q 1 d)"
    using ih(1) by (rule gives_up_Again[OF fs(1) a])
  moreover have "length (attempts (resize_loop (Suc (i + 12 + m)) img fmt out mn mx ?q 1 d))
      = Suc (i + 12)"
    unfolding length_Again[OF fs(1) a] ih(2) ..
  ultimately show ?case unfolding f by simp
qed





lemma exit_Again:
  "im_save img (resized (im_size img) s) fmt q = Some fs \<Longrightarrow> adjust mn mx q s fs = Again q' s' \<Longrightarrow>
   exit (resize_loop (Suc n) img fmt out mn mx q s d) =
   exit (resize_loop n img fmt out mn mx q' s'
     (os_remove_if_exists (d(out @ ''.temp'' \<mapsto> artifact_of img fmt q s fs)) (out @ ''.temp'')))"
  by (simp add: resize_loop_Again)








section \<open>The worker loop, file by file\<close>

lemma resize_loop_indep:
  "exit (resize_loop n img fmt out mn mx q s d) = exit (resize_loop n img fmt out' mn mx q s d')"
proof (induction n arbitrary: q s d d')
  case 0
  then show ?case by simp
next
  case (Suc n)
  show ?case
  proof (cases "im_save img (resized (im_size img) s) fmt q")
    case None
    then show ?thesis by (simp add: resize_loop_None)
  next
    case (Some fs)
    show ?thesis
    proof (cases "adjust mn mx q s fs")
      case (Done ok sz)
      with Some show ?thesis by (simp add: resize_loop_Done)
    next
      case (Again q' s')
      show ?thesis unfolding exit_Again[OF Some Again] by (rule Suc.IH)
    qed
  qed
qed

lemma returned_indep:
  "returned (resize_image n Image_open d file_path out target_size_kb) =
   returned (resize_image n Image_open d' file_path out' target_size_kb)"
proof (cases "Image_open file_path")
  case None
  then show ?thesis by (simp add: resize_image_def returned_def)
next
  case (Some img)
  then show ?thesis
    using resize_loop_indep[of n img "format_or_default img" out _ _ 90 1 d out' d']
    by (simp add: resize_image_def returned_def Let_def)
qed

lemma returned_outcome:
  assumes "halts n Image_open target_size_kb file_path"
  shows "returned (resize_image n Image_open d file_path out target_size_kb) =
    Some (outcome_of n Image_open target_size_kb file_path)"
proof -
  have "returned (resize_image n Image_open Map.empty file_path [] target_size_kb) \<noteq> None"
    using assms unfolding halts_def returned_def
    by (cases "exit (resize_image n Image_open Map.empty file_path [] target_size_kb)") auto
  then show ?thesis
    unfolding outcome_of_def returned_indep[of n Image_open d file_path out target_size_kb Map.empty "[]"]
    by simp
qed

lemma accepted_Cons:
  "accepted i (f # fs) = (if supported f then (i, f) # accepted (Suc i) fs else accepted (Suc i) fs)"
  by (simp add: accepted_def)

lemma run_loop_all:
  "\<forall>j<length fs. running (i + j) \<Longrightarrow> \<forall>f\<in>set fs. supported f \<longrightarrow> halts n Image_open tgt f \<Longrightarrow>
   \<exists>d'. run_loop n Image_open output_dir tgt running len i fs w =
     Some \<lparr>results = results w @ map (result_of n Image_open output_dir tgt) (filter supported fs),
           emitted = emitted w @ concat (map (signals_of n Image_open tgt len) (accepted i fs)),
           disk = d'\<rparr>"
proof (induction fs arbitrary: i w)
  case Nil
  show ?case by (rule exI[of _ "disk w"]) (simp add: accepted_def)
next
  case (Cons f fs)
  from Cons.prems(1) have run0: "running i" by force
  have rest: "\<forall>j<length fs. running (Suc i + j)"
  proof (intro allI impI)
    fix j assume "j < length fs"
    then have "Suc j < length (f # fs)" by simp
    with Cons.prems(1) have "running (i + Suc j)" by blast
    then show "running (Suc i + j)" by simp
  qed
  have halts': "\<forall>f\<in>set fs. supported f \<longrightarrow> halts n Image_open tgt f" using Cons.prems(2) by simp
  show ?case
  proof (cases "supported f")
    case False
    with run0 Cons.IH[OF rest halts', of w] show ?thesis
      by (simp add: accepted_Cons Let_def)
  next
    case True
    with Cons.prems(2) have h: "halts n Image_open tgt f" by simp
    let ?r = "resize_image n Image_open (disk w) f (join output_dir (basename f)) tgt"
    let ?w = "\<lparr>results = results w @ [(f, join output_dir (basename f),
                  fst (outcome_of n Image_open tgt f), snd (outcome_of n Image_open tgt f))],
               emitted = emitted w @ [progress_updated (progress_of i len),
                  file_processed (basename f) (fst (outcome_of n Image_open tgt f))
                    (snd (outcome_of n Image_open tgt f))],
               disk = disk_after ?r\<rparr>"
    have step: "run_loop n Image_open output_dir tgt running len i (f # fs) w =
        run_loop n Image_open output_dir tgt running len (Suc i) fs ?w"
      using run0 True returned_outcome[OF h, of "disk w" "join output_dir (basename f)"]
      by (simp add: Let_def split_beta)
    from Cons.IH[OF rest halts', of ?w] show ?thesis
      unfolding step using True
      by (simp add: accepted_Cons result_of_def signals_of_def)
  qed
qed

lemma run_loop_stop:
  "\<not> running (i + length pre) \<Longrightarrow>
   run_loop n Image_open output_dir tgt running len i (pre @ rest) w =
   run_loop n Image_open output_dir tgt running len i pre w"
proof (induction pre arbitrary: i w)
  case Nil
  then show ?case by (cases rest) simp_all
next
  case (Cons f pre)
  then have "\<not> running (Suc i + length pre)" by simp
  from Cons.IH[OF this] show ?case
    by (simp add: Let_def split: option.splits prod.splits)
qed

lemma run_loop_unsupported:
  "\<forall>f\<in>set fs. \<not> supported f \<Longrightarrow>
   run_loop n Image_open output_dir tgt running len i fs w = Some w"
  by (induction fs arbitrary: i) (simp_all add: Let_def)

lemma binary64_1: "binary64 1 = 1"
  by code_simp

lemma binary64_100: "binary64 100 = 100"
  by code_simp

lemma progress_of_last: "0 < N \<Longrightarrow> progress_of (N - 1) N = 100"
proof -
  assume "0 < N"
  then have "(rat_of_int (int (N - 1) + 1)) / rat_of_int (int N) = 1" by simp
  then have "true_div (int (N - 1) + 1) (int N) = 1" unfolding true_div_def by (simp only: binary64_1)
  then show ?thesis
    unfolding progress_of_def float_of_int_def float_mul_def
    by (simp add: binary64_100 py_int_def)
qed

lemma percents_append: "percents (xs @ ys) = percents xs @ percents ys"
  by (induction xs rule: percents.induct) simp_all

lemma completions_append: "completions (xs @ ys) = completions xs @ completions ys"
  by (induction xs rule: completions.induct) simp_all

lemma percents_signals:
  "percents (concat (map (signals_of n Image_open tgt len) xs)) = map (\<lambda>jf. progress_of (fst jf) len) xs"
  by (induction xs) (simp_all add: signals_of_def)

lemma completions_signals:
  "completions (concat (map (signals_of n Image_open tgt len) xs)) = []"
  by (induction xs) (simp_all add: signals_of_def)

lemma accepted_Nil: "accepted i [] = []"
  by (simp add: accepted_def)

lemma length_accepted: "length (accepted i fs) = length (filter supported fs)"
  by (induction fs arbitrary: i) (simp_all add: accepted_Cons accepted_Nil)

lemma map_snd_accepted: "map snd (accepted i fs) = filter supported fs"
  by (induction fs arbitrary: i) (simp_all add: accepted_Cons accepted_Nil)

lemma last_accepted:
  "fs \<noteq> [] \<Longrightarrow> supported (last fs) \<Longrightarrow>
   accepted i fs \<noteq> [] \<and> last (accepted i fs) = (i + length fs - 1, last fs)"
proof (induction fs arbitrary: i)
  case Nil
  then show ?case by simp
next
  case (Cons f fs)
  show ?case
  proof (cases "fs = []")
    case True
    with Cons.prems show ?thesis by (simp add: accepted_Cons accepted_Nil)
  next
    case False
    with Cons.prems have "supported (last fs)" by simp
    from Cons.IH[OF False this, of "Suc i"] False show ?thesis
      by (simp add: accepted_Cons)
  qed
qed

lemmas path_simps = supported_def splitext_def rfind_def lower_def lower_char_def basename_def join_def

lemma run_all:
  assumes "\<forall>i<length files. running i"
    and "\<forall>f\<in>set files. supported f \<longrightarrow> halts n Image_open tgt f"
  shows "\<exists>d'. run n Image_open files output_dir tgt running d =
     Some \<lparr>results = map (result_of n Image_open output_dir tgt) (filter supported files),
           emitted = concat (map (signals_of n Image_open tgt (length files)) (accepted 0 files)) @
             [resize_completed (map (result_of n Image_open output_dir tgt) (filter supported files))],
           disk = d'\<rparr>"
proof -
  from assms(1) have "\<forall>j<length files. running (0 + j)" by simp
  from run_loop_all[OF this assms(2), of output_dir "length files" "\<lparr>results = [], emitted = [], disk = d\<rparr>"]
  obtain d' where "run_loop n Image_open output_dir tgt running (length files) 0 files
      \<lparr>results = [], emitted = [], disk = d\<rparr> =
     Some \<lparr>results = map (result_of n Image_open output_dir tgt) (filter supported files),
           emitted = concat (map (signals_of n Image_open tgt (length files)) (accepted 0 files)),
           disk = d'\<rparr>"
    by auto
  then show ?thesis by (simp add: run_def)
qed

lemma run_stop:
  assumes "c \<le> length files" and "\<not> running c"
  shows "run_loop n Image_open output_dir tgt running len 0 files w =
    run_loop n Image_open output_dir tgt running len 0 (take c files) w"
proof -
  have "\<not> running (0 + length (take c files))" using assms by simp
  from run_loop_stop[where running = running and i = 0 and pre = "take c files"
      and rest = "drop c files", OF this, of n Image_open output_dir tgt len w]
  show ?thesis by simp
qed

lemma outcome_undecodable:
  "Image_open f = None \<Longrightarrow> outcome_of n Image_open tgt f = (False, 0)"
  by (simp add: outcome_of_def resize_image_def returned_def)

lemma third: "true_div 1 3 = 6004799503160661 / 18014398509481984"
  by code_simp

lemma third_of_100:
  "float_mul (6004799503160661 / 18014398509481984) 100 = 2345624805922133 / 70368744177664"
  by code_simp

lemma half: "true_div 1 2 = 1 / 2"
  by code_simp

lemma half_of_100: "float_mul (1 / 2) 100 = 50"
  by code_simp

lemma int_33: "py_int (2345624805922133 / 70368744177664) = 33"
  by code_simp

lemma progress_0_3: "progress_of 0 3 = 33"
  by (simp add: progress_of_def third float_of_int_def binary64_100 third_of_100 int_33)

lemma progress_0_2: "progress_of 0 2 = 50"
  by (simp add: progress_of_def half float_of_int_def binary64_100 half_of_100 py_int_def)

lemma progress_spec_0_1: "progress_spec 0 1 = 100"
  by (simp add: progress_spec_def true_div_def binary64_1 float_of_int_def binary64_100 float_mul_def
        py_round_def round_half_even_def)

lemma photo_simps [simp]:
  "im_save photo b fmt q = Some 500000"
  "im_size photo = (4000, 3000)"
  "format_or_default photo = ''JPEG''"
  by (simp_all add: photo_def)

lemma photo_in_band:
  "resize_loop (Suc n) photo ''JPEG'' out (100 * 1024) (1024 * 1024) 90 1 d =
     \<lparr>attempts = [attempt_of photo 90 1 (Some 500000)], exit = Returned True 500000,
      disk_after = shutil_move (d(out @ ''.temp'' \<mapsto> artifact_of photo ''JPEG'' 90 1 500000))
        (out @ ''.temp'') out\<rparr>"
  by (rule resize_loop_Done) (simp_all add: adjust_def)

lemma photo_halts: "halts (Suc n) (\<lambda>p. Some photo) (100, 1024) f"
  using photo_in_band[of n "[]" Map.empty] by (simp add: halts_def resize_image_def)

lemma photo_outcome: "outcome_of (Suc n) (\<lambda>p. Some photo) (100, 1024) f = (True, 500000)"
  using photo_in_band[of n "[]" Map.empty] by (simp add: outcome_of_def resize_image_def returned_def)

section \<open>The progress values\<close>

lemma progress_of_mono:
  assumes "0 < N" and "i \<le> j"
  shows "progress_of i N \<le> progress_of j N"
proof -
  let ?a = "rat_of_int (int i + 1) / rat_of_int (int N)"
  let ?b = "rat_of_int (int j + 1) / rat_of_int (int N)"
  have a: "0 \<le> ?a" by simp
  have ab: "?a \<le> ?b" using assms by (simp add: divide_right_mono)
  have t: "0 \<le> binary64 ?a" "binary64 ?a \<le> binary64 ?b"
    using binary64_nonneg[OF a] binary64_mono[OF a ab] by simp_all
  then have m: "0 \<le> binary64 ?a * 100" "binary64 ?a * 100 \<le> binary64 ?b * 100" by simp_all
  have p: "0 \<le> binary64 (binary64 ?a * 100)"
      "binary64 (binary64 ?a * 100) \<le> binary64 (binary64 ?b * 100)"
    using binary64_nonneg[OF m(1)] binary64_mono[OF m] by simp_all
  then have "\<lfloor>binary64 (binary64 ?a * 100)\<rfloor> \<le> \<lfloor>binary64 (binary64 ?b * 100)\<rfloor>"
    by (intro floor_mono) simp
  with p show ?thesis
    by (simp add: progress_of_def true_div_def float_mul_def float_of_int_def binary64_100 py_int_def)
qed

lemma progress_of_range:
  assumes "i < N"
  shows "0 \<le> progress_of i N \<and> progress_of i N \<le> 100"
proof -
  let ?a = "rat_of_int (int i + 1) / rat_of_int (int N)"
  have a: "0 \<le> ?a" by simp
  have a1: "?a \<le> 1" using assms by simp
  have t: "0 \<le> binary64 ?a" "binary64 ?a \<le> 1"
    using binary64_nonneg[OF a] binary64_mono[OF a a1] by (simp_all add: binary64_1)
  then have m: "0 \<le> binary64 ?a * 100" "binary64 ?a * 100 \<le> 100" by simp_all
  have p: "0 \<le> binary64 (binary64 ?a * 100)" "binary64 (binary64 ?a * 100) \<le> 100"
    using binary64_nonneg[OF m(1)] binary64_mono[OF m] by (simp_all add: binary64_100)
  then have "\<lfloor>binary64 (binary64 ?a * 100)\<rfloor> \<le> 100" by (simp add: floor_le_iff)
  with p show ?thesis
    by (simp add: progress_of_def true_div_def float_mul_def float_of_int_def binary64_100 py_int_def)
qed

lemma accepted_index: "jf \<in> set (accepted i fs) \<Longrightarrow> i \<le> fst jf \<and> fst jf < i + length fs"
  by (auto simp: accepted_def in_set_enumerate_eq)

lemma accepted_sorted: "sorted (map fst (accepted i fs))"
  unfolding accepted_def by (rule sorted_filter) simp

lemma percents_sorted:
  "sorted (map (\<lambda>jf. progress_of (fst jf) (length fs)) (accepted 0 fs))"
proof -
  have "sorted_wrt (\<lambda>a b. fst a \<le> fst b) (accepted 0 fs)"
    using accepted_sorted[of 0 fs] by (simp add: sorted_map)
  then have "sorted_wrt (\<lambda>a b. progress_of (fst a) (length fs) \<le> progress_of (fst b) (length fs))
      (accepted 0 fs)"
  proof (rule sorted_wrt_mono_rel[rotated])
    fix a b assume "a \<in> set (accepted 0 fs)" and ab: "fst a \<le> fst b"
    then have "0 < length fs" using accepted_index[of a 0 fs] by (cases fs) auto
    then show "progress_of (fst a) (length fs) \<le> progress_of (fst b) (length fs)"
      using ab by (rule progress_of_mono)
  qed
  then show ?thesis by (simp add: sorted_map)
qed

lemma percents_range:
  "p \<in> set (map (\<lambda>jf. progress_of (fst jf) (length fs)) (accepted 0 fs)) \<Longrightarrow> 0 \<le> p \<and> p \<le> 100"
  using accepted_index[of _ 0 fs] progress_of_range[of _ "length fs"] by auto

lemma progress_28_of_100:
  "true_div 28 100 = 1261007895663739 / 4503599627370496"
  "float_mul (1261007895663739 / 4503599627370496) 100 = 7881299347898369 / 281474976710656"
  "py_int (7881299347898369 / 281474976710656) = 28"
  by code_simp+

lemma progress_29_of_100:
  "true_div 29 100 = 5224175567749775 / 18014398509481984"
  "float_mul (5224175567749775 / 18014398509481984) 100 = 8162774324609023 / 281474976710656"
  "py_int (8162774324609023 / 281474976710656) = 28"
  by code_simp+

lemma progress_not_strict: "progress_of 27 100 = 28 \<and> progress_of 28 100 = 28"
  by (simp add: progress_of_def float_of_int_def binary64_100 progress_28_of_100 progress_29_of_100)

section \<open>What a search and the worker loop leave on the disk\<close>

lemma disk_after_None:
  "im_save img (resized (im_size img) s) fmt q = None \<Longrightarrow>
   disk_after (resize_loop (Suc n) img fmt out mn mx q s d) = d"
  by (simp add: resize_loop_None)

lemma disk_after_Done:
  "im_save img (resized (im_size img) s) fmt q = Some fs \<Longrightarrow> adjust mn mx q s fs = Done ok sz \<Longrightarrow>
   disk_after (resize_loop (Suc n) img fmt out mn mx q s d) =
     shutil_move (d(out @ ''.temp'' \<mapsto> artifact_of img fmt q s fs)) (out @ ''.temp'') out"
  by (simp add: resize_loop_Done)

lemma disk_after_Again:
  "im_save img (resized (im_size img) s) fmt q = Some fs \<Longrightarrow> adjust mn mx q s fs = Again q' s' \<Longrightarrow>
   disk_after (resize_loop (Suc n) img fmt out mn mx q s d) =
     disk_after (resize_loop n img fmt out mn mx q' s'
       (os_remove_if_exists (d(out @ ''.temp'' \<mapsto> artifact_of img fmt q s fs)) (out @ ''.temp'')))"
  by (simp add: resize_loop_Again)

lemma resize_loop_frame:
  "p \<noteq> out \<Longrightarrow> p \<noteq> out @ ''.temp'' \<Longrightarrow>
   disk_after (resize_loop n img fmt out mn mx q s d) p = d p"
proof (induction n arbitrary: q s d)
  case 0
  then show ?case by simp
next
  case (Suc n)
  show ?case
  proof (cases "im_save img (resized (im_size img) s) fmt q")
    case None
    then show ?thesis by (simp add: disk_after_None)
  next
    case (Some fs)
    show ?thesis
    proof (cases "adjust mn mx q s fs")
      case (Done ok sz)
      with Some Suc.prems show ?thesis by (simp add: disk_after_Done shutil_move_def)
    next
      case (Again q' s')
      show ?thesis
        unfolding disk_after_Again[OF Some Again] Suc.IH[OF Suc.prems]
        using Suc.prems by (simp add: os_remove_if_exists_def)
    qed
  qed
qed

lemma resize_image_frame:
  "p \<noteq> out \<Longrightarrow> p \<noteq> out @ ''.temp'' \<Longrightarrow>
   disk_after (resize_image n Image_open d file_path out target_size_kb) p = d p"
  by (cases "Image_open file_path") (simp_all add: resize_image_def Let_def resize_loop_frame)

lemma written_Cons:
  "written output_dir (f # fs) =
     (if supported f
      then {join output_dir (basename f), join output_dir (basename f) @ ''.temp''} \<union>
           written output_dir fs
      else written output_dir fs)"
  by (simp add: written_def)

lemma saved_frame:
  "p \<notin> written output_dir fs \<Longrightarrow> saved n Image_open output_dir tgt fs d p = d p"
proof (induction fs arbitrary: d)
  case Nil
  then show ?case by simp
next
  case (Cons f fs)
  show ?case
  proof (cases "supported f")
    case False
    with Cons show ?thesis by (simp add: written_Cons)
  next
    case True
    with Cons.prems have p: "p \<noteq> join output_dir (basename f)"
      "p \<noteq> join output_dir (basename f) @ ''.temp''" "p \<notin> written output_dir fs"
      by (simp_all add: written_Cons)
    from Cons.IH[OF p(3)] resize_image_frame[OF p(1,2)] True show ?thesis by simp
  qed
qed

lemma run_loop_saved:
  "\<forall>j<length fs. running (i + j) \<Longrightarrow> \<forall>f\<in>set fs. supported f \<longrightarrow> halts n Image_open tgt f \<Longrightarrow>
   run_loop n Image_open output_dir tgt running len i fs w =
     Some \<lparr>results = results w @ map (result_of n Image_open output_dir tgt) (filter supported fs),
           emitted = emitted w @ concat (map (signals_of n Image_open tgt len) (accepted i fs)),
           disk = saved n Image_open output_dir tgt fs (disk w)\<rparr>"
proof (induction fs arbitrary: i w)
  case Nil
  show ?case by (simp add: accepted_def)
next
  case (Cons f fs)
  from Cons.prems(1) have run0: "running i" by force
  have rest: "\<forall>j<length fs. running (Suc i + j)"
  proof (intro allI impI)
    fix j assume "j < length fs"
    then have "Suc j < length (f # fs)" by simp
    with Cons.prems(1) have "running (i + Suc j)" by blast
    then show "running (Suc i + j)" by simp
  qed
  have halts': "\<forall>f\<in>set fs. supported f \<longrightarrow> halts n Image_open tgt f" using Cons.prems(2) by simp
  show ?case
  proof (cases "supported f")
    case False
    with run0 Cons.IH[OF rest halts', of w] show ?thesis
      by (simp add: accepted_Cons Let_def)
  next
    case True
    with Cons.prems(2) have h: "halts n Image_open tgt f" by simp
    let ?r = "resize_image n Image_open (disk w) f (join output_dir (basename f)) tgt"
    let ?w = "\<lparr>results = results w @ [(f, join output_dir (basename f),
                  fst (outcome_of n Image_open tgt f), snd (outcome_of n Image_open tgt f))],
               emitted = emitted w @ [progress_updated (progress_of i len),
                  file_processed (basename f) (fst (outcome_of n Image_open tgt f))
                    (snd (outcome_of n Image_open tgt f))],
               disk = disk_after ?r\<rparr>"
    have step: "run_loop n Image_open output_dir tgt running len i (f # fs) w =
        run_loop n Image_open output_dir tgt running len (Suc i) fs ?w"
      using run0 True returned_outcome[OF h, of "disk w" "join output_dir (basename f)"]
      by (simp add: Let_def split_beta)
    from Cons.IH[OF rest halts', of ?w] show ?thesis
      unfolding step using True
      by (simp add: accepted_Cons result_of_def signals_of_def)
  qed
qed

lemma run_loop_cong:
  "\<forall>f\<in>set fs. Image_open' f = Image_open f \<Longrightarrow>
   run_loop n Image_open' output_dir tgt running len i fs w =
   run_loop n Image_open output_dir tgt running len i fs w"
proof (induction fs arbitrary: i w)
  case Nil
  show ?case by simp
next
  case (Cons f fs)
  then have f: "Image_open' f = Image_open f"
    and fs: "\<forall>f\<in>set fs. Image_open' f = Image_open f" by simp_all
  have r: "resize_image n Image_open' d f out tgt = resize_image n Image_open d f out tgt" for d out
    using f by (simp add: resize_image_def)
  show ?case
    by (simp add: Let_def r Cons.IH[OF fs] split: option.splits prod.splits)
qed

section \<open>The worker loop at a file that cannot be decoded\<close>

lemma resize_image_undecodable:
  assumes "undecodable Image_open f"
  shows "exit (resize_image (Suc n) Image_open d f out tgt) = Raised \<and>
    disk_after (resize_image (Suc n) Image_open d f out tgt) = d"
proof (cases "Image_open f")
  case None
  then show ?thesis by (simp add: resize_image_def)
next
  case (Some img)
  with assms have "im_save img (resized (im_size img) 1) (format_or_default img) 90 = None"
    by (simp add: undecodable_def resized_1)
  with Some show ?thesis
    by (simp add: resize_image_def Let_def resize_loop_None)
qed

lemma run_loop_undecodable:
  assumes "supported f" and "undecodable Image_open f" and "running i"
  shows "run_loop (Suc n) Image_open output_dir tgt running len i (f # rest) w =
    run_loop (Suc n) Image_open output_dir tgt running len (Suc i) rest
      \<lparr>results = results w @ [(f, join output_dir (basename f), False, 0)],
       emitted = emitted w @ [progress_updated (progress_of i len),
                              file_processed (basename f) False 0],
       disk = disk w\<rparr>"
  using assms(1,3) resize_image_undecodable[OF assms(2), of n "disk w" "join output_dir (basename f)" tgt]
  by (simp add: Let_def returned_def)

lemma run_loop_append:
  "\<forall>j<length pre. running (i + j) \<Longrightarrow>
   run_loop n Image_open output_dir tgt running len i (pre @ xs) w =
     (case run_loop n Image_open output_dir tgt running len i pre w of
        None \<Rightarrow> None
      | Some w1 \<Rightarrow> run_loop n Image_open output_dir tgt running len (i + length pre) xs w1)"
proof (induction pre arbitrary: i w)
  case Nil
  show ?case by simp
next
  case (Cons f pre)
  from Cons.prems have run0: "running i" by force
  have rest: "\<forall>j<length pre. running (Suc i + j)"
  proof (intro allI impI)
    fix j assume "j < length pre"
    then have "Suc j < length (f # pre)" by simp
    with Cons.prems have "running (i + Suc j)" by blast
    then show "running (Suc i + j)" by simp
  qed
  show ?case
    using run0 by (simp add: Let_def Cons.IH[OF rest] split: option.splits prod.splits)
qed

lemma run_loop_grows:
  "run_loop n Image_open output_dir tgt running len i fs w = Some w' \<Longrightarrow>
   \<exists>rs es. results w' = results w @ rs \<and> emitted w' = emitted w @ es"
proof (induction fs arbitrary: i w)
  case Nil
  then show ?case by simp
next
  case (Cons f fs)
  show ?case
  proof (cases "running i \<and> supported f")
    case False
    then consider "\<not> running i" | "running i" "\<not> supported f" by blast
    then show ?thesis
    proof cases
      case 1
      with Cons.prems show ?thesis by simp
    next
      case 2
      with Cons.prems have "run_loop n Image_open output_dir tgt running len (Suc i) fs w = Some w'"
        by (simp add: Let_def)
      from Cons.IH[OF this] show ?thesis .
    qed
  next
    case True
    let ?r = "resize_image n Image_open (disk w) f (join output_dir (basename f)) tgt"
    from True Cons.prems obtain ok sz where r: "returned ?r = Some (ok, sz)"
      by (cases "returned ?r") (auto simp: Let_def)
    let ?w = "\<lparr>results = results w @ [(f, join output_dir (basename f), ok, sz)],
               emitted = emitted w @ [progress_updated (progress_of i len),
                                      file_processed (basename f) ok sz],
               disk = disk_after ?r\<rparr>"
    from True Cons.prems r
    have "run_loop n Image_open output_dir tgt running len (Suc i) fs ?w = Some w'"
      by (simp add: Let_def)
    from Cons.IH[OF this] show ?thesis by auto
  qed
qed

section \<open>The buffers of a 4000 x 3000 image\<close>

lemma ilog2_unique:
  assumes "0 < x" and "pow2 e \<le> x" and "x < pow2 (e + 1)"
  shows "ilog2 x = e"
proof (rule antisym)
  from ilog2_bounds[OF assms(1)] have b: "pow2 (ilog2 x) \<le> x" "x < pow2 (ilog2 x + 1)" by simp_all
  show "ilog2 x \<le> e"
  proof (rule ccontr)
    assume "\<not> ilog2 x \<le> e"
    then have "e + 1 \<le> ilog2 x" by simp
    from pow2_mono[OF this] b(1) assms(3) show False by simp
  qed
  show "e \<le> ilog2 x"
  proof (rule ccontr)
    assume "\<not> e \<le> ilog2 x"
    then have "ilog2 x + 1 \<le> e" by simp
    from pow2_mono[OF this] b(2) assms(2) show False by simp
  qed
qed

lemma binary64_eq:
  assumes "0 < x" and "pow2 e \<le> x" and "x < pow2 (e + 1)"
    and "round_half_even (x / pow2 (e - 52)) = m" and "of_int m * pow2 (e - 52) = r"
  shows "binary64 x = r"
  unfolding binary64_pos[OF assms(1)] ilog2_unique[OF assms(1-3)] assms(4) by (rule assms(5))

lemma float_mul_eq:
  assumes "0 < a * b" and "pow2 e \<le> a * b" and "a * b < pow2 (e + 1)"
    and "round_half_even (a * b / pow2 (e - 52)) = m" and "of_int m * pow2 (e - 52) = r"
  shows "float_mul a b = r"
  unfolding float_mul_def using assms by (rule binary64_eq)

lemma float_4000: "float_of_int 4000 = 4000"
  unfolding float_of_int_def of_int_numeral
  by (rule binary64_eq[where e = 11 and m = 8796093022208000]) code_simp+

lemma float_3000: "float_of_int 3000 = 3000"
  unfolding float_of_int_def of_int_numeral
  by (rule binary64_eq[where e = 11 and m = 6597069766656000]) code_simp+

lemma width_1: "float_mul 4000 (8106479329266893 / 9007199254740992) = 3600"
  by (rule float_mul_eq[where e = 11 and m = 7916483719987200]) code_simp+

lemma height_1: "float_mul 3000 (8106479329266893 / 9007199254740992) = 2700"
  by (rule float_mul_eq[where e = 11 and m = 5937362789990400]) code_simp+

lemma width_2: "float_mul 4000 (1823957849085051 / 2251799813685248) = 3240"
  by (rule float_mul_eq[where e = 11 and m = 7124835347988480]) code_simp+

lemma height_2: "float_mul 3000 (1823957849085051 / 2251799813685248) = 2430"
  by (rule float_mul_eq[where e = 11 and m = 5343626510991360]) code_simp+

lemma width_3: "float_mul 4000 (820781032088273 / 1125899906842624) = 6412351813189633 / 2199023255552"
  by (rule float_mul_eq[where e = 11 and m = 6412351813189633]) code_simp+

lemma height_3: "float_mul 3000 (820781032088273 / 1125899906842624) = 4809263859892225 / 2199023255552"
  by (rule float_mul_eq[where e = 11 and m = 4809263859892225]) code_simp+

lemma width_4: "float_mul 4000 (2954811715517783 / 4503599627370496) = 2885558315935335 / 1099511627776"
  by (rule float_mul_eq[where e = 11 and m = 5771116631870670]) code_simp+

lemma height_4: "float_mul 3000 (2954811715517783 / 4503599627370496) = 8656674947806005 / 4398046511104"
  by (rule float_mul_eq[where e = 10 and m = 8656674947806005]) code_simp+

lemma width_5: "float_mul 4000 (2659330543966005 / 4503599627370496) = 1298501242170901 / 549755813888"
  by (rule float_mul_eq[where e = 11 and m = 5194004968683604]) code_simp+

lemma height_5: "float_mul 3000 (2659330543966005 / 4503599627370496) = 7791007453025405 / 4398046511104"
  by (rule float_mul_eq[where e = 10 and m = 7791007453025405]) code_simp+

lemma width_6: "float_mul 4000 (4786794979138809 / 9007199254740992) = 4674604471815243 / 2199023255552"
  by (rule float_mul_eq[where e = 11 and m = 4674604471815243]) code_simp+

lemma height_6: "float_mul 3000 (4786794979138809 / 9007199254740992) = 7011906707722865 / 4398046511104"
  by (rule float_mul_eq[where e = 10 and m = 7011906707722865]) code_simp+

lemma width_7: "float_mul 4000 (134628608788279 / 281474976710656) = 4207144024633719 / 2199023255552"
  by (rule float_mul_eq[where e = 10 and m = 8414288049267438]) code_simp+

lemma height_7: "float_mul 3000 (134628608788279 / 281474976710656) = 3155358018475289 / 2199023255552"
  by (rule float_mul_eq[where e = 10 and m = 6310716036950578]) code_simp+

lemma width_8: "float_mul 4000 (7754607866204871 / 18014398509481984) = 3786429622170347 / 2199023255552"
  by (rule float_mul_eq[where e = 10 and m = 7572859244340694]) code_simp+

lemma height_8: "float_mul 3000 (7754607866204871 / 18014398509481984) = 5679644433255521 / 4398046511104"
  by (rule float_mul_eq[where e = 10 and m = 5679644433255521]) code_simp+

lemma width_9: "float_mul 4000 (54524586559253 / 140737488355328) = 6815573319906625 / 4398046511104"
  by (rule float_mul_eq[where e = 10 and m = 6815573319906625]) code_simp+

lemma height_9: "float_mul 3000 (54524586559253 / 140737488355328) = 5111679989929969 / 4398046511104"
  by (rule float_mul_eq[where e = 10 and m = 5111679989929969]) code_simp+

lemma width_10: "float_mul 4000 (3140616185812973 / 9007199254740992) = 6134015987915963 / 4398046511104"
  by (rule float_mul_eq[where e = 10 and m = 6134015987915963]) code_simp+

lemma height_10: "float_mul 3000 (3140616185812973 / 9007199254740992) = 1150127997734243 / 1099511627776"
  by (rule float_mul_eq[where e = 10 and m = 4600511990936972]) code_simp+

lemma width_11: "float_mul 4000 (706638641807919 / 2251799813685248) = 5520614389124367 / 4398046511104"
  by (rule float_mul_eq[where e = 10 and m = 5520614389124367]) code_simp+

lemma height_11: "float_mul 3000 (706638641807919 / 2251799813685248) = 8280921583686551 / 8796093022208"
  by (rule float_mul_eq[where e = 9 and m = 8280921583686551]) code_simp+

lemma int_of_941: "py_int (8280921583686551 / 8796093022208) = 941"
  by code_simp

lemma int_of_1046: "py_int (1150127997734243 / 1099511627776) = 1046"
  by code_simp

lemma int_of_1162: "py_int (5111679989929969 / 4398046511104) = 1162"
  by code_simp

lemma int_of_1255: "py_int (5520614389124367 / 4398046511104) = 1255"
  by code_simp

lemma int_of_1291: "py_int (5679644433255521 / 4398046511104) = 1291"
  by code_simp

lemma int_of_1394: "py_int (6134015987915963 / 4398046511104) = 1394"
  by code_simp

lemma int_of_1434: "py_int (3155358018475289 / 2199023255552) = 1434"
  by code_simp

lemma int_of_1549: "py_int (6815573319906625 / 4398046511104) = 1549"
  by code_simp

lemma int_of_1594: "py_int (7011906707722865 / 4398046511104) = 1594"
  by code_simp

lemma int_of_1721: "py_int (3786429622170347 / 2199023255552) = 1721"
  by code_simp

lemma int_of_1771: "py_int (7791007453025405 / 4398046511104) = 1771"
  by code_simp

lemma int_of_1913: "py_int (4207144024633719 / 2199023255552) = 1913"
  by code_simp

lemma int_of_1968: "py_int (8656674947806005 / 4398046511104) = 1968"
  by code_simp

lemma int_of_2125: "py_int (4674604471815243 / 2199023255552) = 2125"
  by code_simp

lemma int_of_2187: "py_int (4809263859892225 / 2199023255552) = 2187"
  by code_simp

lemma int_of_2361: "py_int (1298501242170901 / 549755813888) = 2361"
  by code_simp

lemma int_of_2430: "py_int (2430) = 2430"
  by code_simp

lemma int_of_2624: "py_int (2885558315935335 / 1099511627776) = 2624"
  by code_simp

lemma int_of_2700: "py_int (2700) = 2700"
  by code_simp

lemma int_of_2916: "py_int (6412351813189633 / 2199023255552) = 2916"
  by code_simp

lemma int_of_3240: "py_int (3240) = 3240"
  by code_simp

lemma int_of_3600: "py_int (3600) = 3600"
  by code_simp

lemma resized_4000_3000:
  "resized (4000, 3000) (8106479329266893 / 9007199254740992) = Resize 3600 2700 LANCZOS"
  "resized (4000, 3000) (1823957849085051 / 2251799813685248) = Resize 3240 2430 LANCZOS"
  "resized (4000, 3000) (820781032088273 / 1125899906842624) = Resize 2916 2187 LANCZOS"
  "resized (4000, 3000) (2954811715517783 / 4503599627370496) = Resize 2624 1968 LANCZOS"
  "resized (4000, 3000) (2659330543966005 / 4503599627370496) = Resize 2361 1771 LANCZOS"
  "resized (4000, 3000) (4786794979138809 / 9007199254740992) = Resize 2125 1594 LANCZOS"
  "resized (4000, 3000) (134628608788279 / 281474976710656) = Resize 1913 1434 LANCZOS"
  "resized (4000, 3000) (7754607866204871 / 18014398509481984) = Resize 1721 1291 LANCZOS"
  "resized (4000, 3000) (54524586559253 / 140737488355328) = Resize 1549 1162 LANCZOS"
  "resized (4000, 3000) (3140616185812973 / 9007199254740992) = Resize 1394 1046 LANCZOS"
  "resized (4000, 3000) (706638641807919 / 2251799813685248) = Resize 1255 941 LANCZOS"
  by (simp_all add: resized_def float_4000 float_3000 width_1 height_1 width_2 height_2 width_3 height_3 width_4 height_4 width_5 height_5 width_6 height_6 width_7 height_7 width_8 height_8 width_9 height_9 width_10 height_10 width_11 height_11 int_of_941 int_of_1046 int_of_1162 int_of_1255 int_of_1291 int_of_1394 int_of_1434 int_of_1549 int_of_1594 int_of_1721 int_of_1771 int_of_1913 int_of_1968 int_of_2125 int_of_2187 int_of_2361 int_of_2430 int_of_2624 int_of_2700 int_of_2916 int_of_3240 int_of_3600)

lemma resized_decayed_4000_3000:
  "resized (4000, 3000) (decayed 0) = Img"
  "resized (4000, 3000) (decayed 1) = Resize 3600 2700 LANCZOS"
  "resized (4000, 3000) (decayed 2) = Resize 3240 2430 LANCZOS"
  "resized (4000, 3000) (decayed 3) = Resize 2916 2187 LANCZOS"
  "resized (4000, 3000) (decayed 4) = Resize 2624 1968 LANCZOS"
  "resized (4000, 3000) (decayed 5) = Resize 2361 1771 LANCZOS"
  "resized (4000, 3000) (decayed 6) = Resize 2125 1594 LANCZOS"
  "resized (4000, 3000) (decayed 7) = Resize 1913 1434 LANCZOS"
  "resized (4000, 3000) (decayed 8) = Resize 1721 1291 LANCZOS"
  "resized (4000, 3000) (decayed 9) = Resize 1549 1162 LANCZOS"
  "resized (4000, 3000) (decayed 10) = Resize 1394 1046 LANCZOS"
  "resized (4000, 3000) (decayed 11) = Resize 1255 941 LANCZOS"
  unfolding decayed_vals resized_4000_3000 by (simp_all add: resized_1)

lemma poster_simps [simp]:
  "im_size poster = (4000, 3000)"
  "format_or_default poster = ''JPEG''"
  "im_save poster Img fmt q = Some (1200000 * q)"
  "im_save poster (Resize w h r) fmt q = Some (w * h * q div 10)"
  by (simp_all add: poster_def format_or_default_def)

lemma poster_too_large_at_full_scale:
  "j \<le> 16 \<Longrightarrow> \<exists>sz. im_save poster Img ''JPEG'' (10 + 5 * int j) = Some sz \<and> 1024 * 1024 < sz"
  by simp

lemma poster_too_large_at_quality_10:
  assumes "k \<le> 11"
  shows "\<exists>sz. im_save poster (resized (im_size poster) (decayed k)) ''JPEG'' 10 = Some sz \<and>
    1024 * 1024 < sz"
proof -
  from assms consider "k = 0" | "k = 1" | "k = 2" | "k = 3" | "k = 4" | "k = 5" | "k = 6"
    | "k = 7" | "k = 8" | "k = 9" | "k = 10" | "k = 11" using le_11_cases[of k] by force
  then show ?thesis
    by cases (simp_all add: resized_decayed_4000_3000 resized_decayed_4000_3000(2)[unfolded One_nat_def]
        del: decayed.simps)
qed
section \<open>Quality and scale stay in range\<close>

text \<open>
  C9. In every execution of the search loop, however long it runs, each encode attempt
  uses a quality between \<open>min_quality = 10\<close> and \<open>95\<close> and a scale factor in \<open>(0, 1]\<close>.
\<close>

theorem quality_and_scale_in_range:
  "a \<in> set (attempts (resize_image n Image_open d input_path output_path target_size_kb)) \<Longrightarrow>
   min_quality \<le> at_quality a \<and> at_quality a \<le> 95 \<and> 0 < at_scale a \<and> at_scale a \<le> 1"
proof -
  assume a: "a \<in> set (attempts (resize_image n Image_open d input_path output_path target_size_kb))"
  show ?thesis
  proof (cases "Image_open input_path")
    case None
    with a show ?thesis by (simp add: resize_image_def)
  next
    case (Some img)
    with a have "reachable (at_quality a) (at_scale a)"
      using attempts_reachable[OF reachable_init] by (simp add: resize_image_def Let_def)
    then show ?thesis using reachable_bounds by (simp add: min_quality_def)
  qed
qed

theorem quality_and_scale_in_range_witness:
  "\<lparr>at_quality = 10, at_scale = 706638641807919 / 2251799813685248,
     at_buffer = Resize 1255 941 LANCZOS, at_bytes = Some 1180955\<rparr>
     \<in> set (attempts (resize_image 28 (\<lambda>p. Some poster) Map.empty ''in/a.jpg'' ''out/a.jpg''
                (100, 1024))) \<and>
   min_quality \<le> (10::int) \<and> (10::int) \<le> 95 \<and>
   (0::rat) < 706638641807919 / 2251799813685248 \<and> (706638641807919 / 2251799813685248 :: rat) \<le> 1 \<and>
   \<lparr>at_quality = 95, at_scale = 1, at_buffer = Img, at_bytes = Some 1000\<rparr>
     \<in> set (attempts (resize_image 2 (\<lambda>p. Some (stub (4000, 3000) (\<lambda>q. 1000))) Map.empty
                ''in/b.jpg'' ''out/b.jpg'' (100, 1024))) \<and>
   min_quality \<le> (95::int) \<and> (95::int) \<le> 95 \<and> (0::rat) < 1 \<and> (1::rat) \<le> 1"
proof -
  let ?low = "\<lparr>at_quality = 10, at_scale = 706638641807919 / 2251799813685248,
     at_buffer = Resize 1255 941 LANCZOS, at_bytes = Some 1180955\<rparr>"
  let ?top = "\<lparr>at_quality = 95, at_scale = 1, at_buffer = Img, at_bytes = Some 1000\<rparr>"
  let ?r = "resize_image 28 (\<lambda>p. Some poster) Map.empty ''in/a.jpg'' ''out/a.jpg'' (100, 1024)"
  have r: "?r = resize_loop (16 + 12 + 0) poster ''JPEG'' ''out/a.jpg'' (100 * 1024) (1024 * 1024)
      (10 + 5 * int 16) 1 Map.empty"
    by (simp add: resize_image_def Let_def)
  have bigq: "\<exists>sz. im_save poster (resized (im_size poster) 1) ''JPEG'' (10 + 5 * int j) = Some sz \<and>
      1024 * 1024 < sz" if "j \<le> 16" for j
    unfolding resized_1 using that by (rule poster_too_large_at_full_scale)
  have i: "(16::nat) \<le> 16" by simp
  from too_large_quality_run[where img = poster and fmt = "''JPEG''" and mx = "1024 * 1024"
      and i = 16 and out = "''out/a.jpg''" and m = 0 and mn = "100 * 1024" and d = Map.empty,
      OF poster_too_large_at_quality_10 bigq i]
  have "gives_up poster ''JPEG'' ''out/a.jpg'' (1024 * 1024) ?r"
    unfolding r by blast
  then obtain sz where sz:
    "im_save poster (resized (im_size poster) (decayed 11)) ''JPEG'' 10 = Some sz"
    "attempts ?r \<noteq> []" "last (attempts ?r) = attempt_of poster 10 (decayed 11) (Some sz)"
    unfolding gives_up_def by blast
  from sz(1) have "sz = 1180955"
    unfolding poster_simps resized_decayed_4000_3000(12) by simp
  with sz(3) have "last (attempts ?r) = ?low"
    by (simp add: attempt_of_def decayed_vals(12) resized_4000_3000(11) del: decayed.simps)
  with sz(2) have low: "?low \<in> set (attempts ?r)" using last_in_set by metis
  have top: "?top \<in> set (attempts (resize_image 2 (\<lambda>p. Some (stub (4000, 3000) (\<lambda>q. 1000))) Map.empty
                ''in/b.jpg'' ''out/b.jpg'' (100, 1024)))"
    by (simp add: resize_image_def resize_loop.simps eval_nat_numeral adjust_def min_quality_def
          attempt_of_def resized_1 Let_def)
  from quality_and_scale_in_range[OF low] quality_and_scale_in_range[OF top] low top
  show ?thesis by simp
qed

section \<open>Termination of the search\<close>







section \<open>Resampling\<close>

text \<open>
  C4 (as the code has it). In every iteration with \<open>scale_factor < 1\<close> the image is
  resampled with the Lanczos filter to the dimensions
  \<open>(int(width * scale_factor), int(height * scale_factor))\<close>, truncated and not rounded;
  in every other iteration the scale factor is 1 and the original buffer is used.
\<close>

theorem resampled_by_truncation:
  "Image_open input_path = Some img \<Longrightarrow>
   a \<in> set (attempts (resize_image n Image_open d input_path output_path target_size_kb)) \<Longrightarrow>
   (at_scale a < 1 \<longrightarrow>
      at_buffer a =
        Resize (py_int (float_mul (float_of_int (fst (im_size img))) (at_scale a)))
               (py_int (float_mul (float_of_int (snd (im_size img))) (at_scale a))) LANCZOS) \<and>
   (\<not> at_scale a < 1 \<longrightarrow> at_scale a = 1 \<and> at_buffer a = Img)"
proof -
  assume o: "Image_open input_path = Some img"
    and a: "a \<in> set (attempts (resize_image n Image_open d input_path output_path target_size_kb))"
  from a o have "reachable (at_quality a) (at_scale a) \<and> at_buffer a = resized (im_size img) (at_scale a)"
    using attempts_reachable[OF reachable_init] by (simp add: resize_image_def Let_def)
  moreover from this have "at_scale a \<le> 1" using reachable_bounds by blast
  ultimately show ?thesis by (auto simp: resized_def)
qed

lemma float_1001: "float_of_int 1001 = 1001"
  by code_simp

lemma float_667: "float_of_int 667 = 667"
  by code_simp

lemma mul_1001:
  "float_mul 1001 (8106479329266893 / 9007199254740992) = 7924400203707187 / 8796093022208"
  by code_simp

lemma mul_667:
  "float_mul 667 (8106479329266893 / 9007199254740992) = 5280294641231463 / 8796093022208"
  by code_simp

lemma int_and_round_900:
  "py_int (7924400203707187 / 8796093022208) = 900"
  "py_round (7924400203707187 / 8796093022208) = 901"
  "py_int (5280294641231463 / 8796093022208) = 600"
  "py_round (5280294641231463 / 8796093022208) = 600"
  by code_simp+

lemma eighteenth_attempt:
  "attempt_of (stub (1001, 667) (\<lambda>q. 5000000)) 10 (decayed 1) (Some 5000000)
     \<in> set (attempts (resize_image 18 (\<lambda>p. Some (stub (1001, 667) (\<lambda>q. 5000000))) Map.empty
                ''in/a.jpg'' ''out/a.jpg'' (100, 1024)))"
  by (simp add: resize_image_def resize_loop.simps adjust_def min_quality_def Let_def
        eval_nat_numeral decay_step_0 c03 decayed_vals(2)[unfolded One_nat_def] del: decayed.simps)

theorem resampled_by_truncation_witness:
  "attempt_of (stub (1001, 667) (\<lambda>q. 5000000)) 10 (decayed 1) (Some 5000000)
     \<in> set (attempts (resize_image 18 (\<lambda>p. Some (stub (1001, 667) (\<lambda>q. 5000000))) Map.empty
                ''in/a.jpg'' ''out/a.jpg'' (100, 1024))) \<and>
   decayed 1 < 1 \<and>
   at_buffer (attempt_of (stub (1001, 667) (\<lambda>q. 5000000)) 10 (decayed 1) (Some 5000000)) =
     Resize (py_int (float_mul (float_of_int 1001) (decayed 1)))
            (py_int (float_mul (float_of_int 667) (decayed 1))) LANCZOS"
proof -
  have o: "(\<lambda>p. Some (stub (1001, 667) (\<lambda>q. 5000000))) ''in/a.jpg'' =
      Some (stub (1001, 667) (\<lambda>q. 5000000))"
    by simp
  have "decayed 1 < 1"
    by (simp add: decayed_vals(2)[unfolded One_nat_def] del: decayed.simps)
  with resampled_by_truncation[OF o eighteenth_attempt] eighteenth_attempt
  show ?thesis
    by (simp add: attempt_of_def del: decayed.simps)
qed

text \<open>
  C4 as the specification states it, with rounded dimensions, fails: a 1001 x 667 image
  that is always too large is resampled, in the 18th iteration at the scale factor 0.9,
  to 900 x 600, while rounding 900.9 and 600.3 gives 901 x 600.
\<close>

theorem resampled_by_rounding_counterexample:
  "attempt_of (stub (1001, 667) (\<lambda>q. 5000000)) 10 (decayed 1) (Some 5000000)
     \<in> set (attempts (resize_image 18 (\<lambda>p. Some (stub (1001, 667) (\<lambda>q. 5000000))) Map.empty
                ''in/a.jpg'' ''out/a.jpg'' (100, 1024))) \<and>
   at_scale (attempt_of (stub (1001, 667) (\<lambda>q. 5000000)) 10 (decayed 1) (Some 5000000)) < 1 \<and>
   at_buffer (attempt_of (stub (1001, 667) (\<lambda>q. 5000000)) 10 (decayed 1) (Some 5000000))
     = Resize 900 600 LANCZOS \<and>
   resized_spec (1001, 667) (decayed 1) = Resize 901 600 LANCZOS"
  using eighteenth_attempt
  by (simp add: attempt_of_def resized_def resized_spec_def decayed_vals(2)[unfolded One_nat_def]
        float_1001 float_667 mul_1001 mul_667 int_and_round_900 del: decayed.simps)

section \<open>Too small at the highest quality\<close>

text \<open>
  C5. For a band with \<open>min \<le> max\<close>: an attempt at quality 95 whose size \<open>sz\<close> is below the
  minimum makes \<^verbatim>\<open>resize_image\<close> move that file to the output path and return
  \<open>(True, sz)\<close>; and \<^verbatim>\<open>resize_image\<close> returns \<open>(True, sz')\<close> exactly when its last attempt
  has size \<open>sz'\<close> and is inside the band, or below the minimum at quality 95.
\<close>

theorem too_small_at_top_quality_is_achieved:
  assumes "fst target_size_kb \<le> snd target_size_kb"
  shows "let r = resize_image n Image_open d input_path output_path target_size_kb;
             min_size_bytes = fst target_size_kb * 1024;
             max_size_bytes = snd target_size_kb * 1024
         in (a \<in> set (attempts r) \<and> at_quality a = 95 \<and> at_bytes a = Some sz \<and> sz < min_size_bytes
              \<longrightarrow> returned r = Some (True, sz) \<and>
                  disk_after r output_path =
                    Some \<lparr>art_buffer = at_buffer a,
                          art_format = format_or_default (the (Image_open input_path)),
                          art_quality = 95, art_bytes = sz\<rparr>) \<and>
            (returned r = Some (True, sz')
              \<longleftrightarrow> attempts r \<noteq> [] \<and> at_bytes (last (attempts r)) = Some sz' \<and>
                  (min_size_bytes \<le> sz' \<and> sz' \<le> max_size_bytes \<or>
                   sz' < min_size_bytes \<and> at_quality (last (attempts r)) = 95))"
proof (cases "Image_open input_path")
  case None
  then show ?thesis by (simp add: resize_image_def returned_def)
next
  case (Some img)
  let ?mn = "fst target_size_kb * 1024" and ?mx = "snd target_size_kb * 1024"
  let ?r = "resize_loop n img (format_or_default img) output_path ?mn ?mx 90 1 d"
  have r: "resize_image n Image_open d input_path output_path target_size_kb = ?r"
    using Some by (simp add: resize_image_def Let_def)
  have band: "?mn \<le> ?mx" using assms by simp
  have ret: "returned ?r = Some (True, x) \<longleftrightarrow> exit ?r = Returned True x" for x
    by (cases "exit ?r") (auto simp: returned_def)
  have 1: "a \<in> set (attempts ?r) \<and> at_quality a = 95 \<and> at_bytes a = Some sz \<and> sz < ?mn
      \<longrightarrow> returned ?r = Some (True, sz) \<and>
        disk_after ?r output_path =
          Some \<lparr>art_buffer = at_buffer a, art_format = format_or_default img,
                art_quality = 95, art_bytes = sz\<rparr>"
    using loop_accepting_attempt[OF band, of a n img "format_or_default img" output_path 90 1 d sz]
    by (auto simp: ret)
  have 2: "returned ?r = Some (True, sz') \<longleftrightarrow> attempts ?r \<noteq> [] \<and> at_bytes (last (attempts ?r)) = Some sz' \<and>
      (?mn \<le> sz' \<and> sz' \<le> ?mx \<or> sz' < ?mn \<and> at_quality (last (attempts ?r)) = 95)"
  proof
    assume "returned ?r = Some (True, sz')"
    then show "attempts ?r \<noteq> [] \<and> at_bytes (last (attempts ?r)) = Some sz' \<and>
      (?mn \<le> sz' \<and> sz' \<le> ?mx \<or> sz' < ?mn \<and> at_quality (last (attempts ?r)) = 95)"
      using loop_True_last[OF reachable_init, of n img "format_or_default img" output_path ?mn ?mx d sz']
      by (simp add: ret)
  next
    assume h: "attempts ?r \<noteq> [] \<and> at_bytes (last (attempts ?r)) = Some sz' \<and>
      (?mn \<le> sz' \<and> sz' \<le> ?mx \<or> sz' < ?mn \<and> at_quality (last (attempts ?r)) = 95)"
    then have "last (attempts ?r) \<in> set (attempts ?r)" by simp
    from loop_accepting_attempt[OF band this] h show "returned ?r = Some (True, sz')"
      by (simp add: ret)
  qed
  show ?thesis unfolding Let_def r using 1 2 Some by simp
qed

theorem too_small_at_top_quality_is_achieved_witness:
  "(100::int) \<le> 1024 \<and>
   attempt_of (stub (4000, 3000) (\<lambda>q. 50000)) 95 1 (Some 50000)
     \<in> set (attempts (resize_image (Suc (Suc 0)) (\<lambda>p. Some (stub (4000, 3000) (\<lambda>q. 50000)))
                Map.empty ''in/a.jpg'' ''out/a.jpg'' (100, 1024))) \<and>
   (50000::int) < 100 * 1024 \<and>
   returned (resize_image (Suc (Suc 0)) (\<lambda>p. Some (stub (4000, 3000) (\<lambda>q. 50000)))
      Map.empty ''in/a.jpg'' ''out/a.jpg'' (100, 1024)) = Some (True, 50000) \<and>
   disk_after (resize_image (Suc (Suc 0)) (\<lambda>p. Some (stub (4000, 3000) (\<lambda>q. 50000)))
      Map.empty ''in/a.jpg'' ''out/a.jpg'' (100, 1024)) ''out/a.jpg'' =
     Some \<lparr>art_buffer = Img, art_format = ''JPEG'', art_quality = 95, art_bytes = 50000\<rparr>"
proof -
  let ?img = "stub (4000, 3000) (\<lambda>q. 50000)"
  let ?r = "resize_image (Suc (Suc 0)) (\<lambda>p. Some ?img) Map.empty ''in/a.jpg'' ''out/a.jpg'' (100, 1024)"
  have mem: "attempt_of ?img 95 1 (Some 50000) \<in> set (attempts ?r)"
    by (simp add: resize_image_def resize_loop.simps adjust_def min_quality_def Let_def)
  have band: "fst (100::int, 1024::int) \<le> snd (100::int, 1024::int)" by simp
  from too_small_at_top_quality_is_achieved[where target_size_kb = "(100, 1024)"
      and a = "attempt_of ?img 95 1 (Some 50000)" and n = "Suc (Suc 0)"
      and Image_open = "\<lambda>p. Some ?img" and d = Map.empty and input_path = "''in/a.jpg''"
      and output_path = "''out/a.jpg''" and sz = 50000 and sz' = 50000, OF band] mem
  show ?thesis
    by (simp add: Let_def attempt_of_def resized_1)
qed

section \<open>Giving up below the minimum scale\<close>

text \<open>
  C6. When the maximum cannot be met on the search's way down (the original image is
  larger than \<open>max_size_bytes\<close> at each of the qualities 90, 85, \<dots>, 10, and so is, at
  quality \<open>min_quality = 10\<close>, each of the eleven images resampled by the scale factors
  \<open>0.9 ^ k\<close>, \<open>1 \<le> k \<le> 11\<close>), the search makes 17 attempts at scale 1.0 and 11 more at
  quality 10. The next scale factor, \<open>0.9 ^ 12\<close>, is below 0.3: the function returns
  \<open>(False, sz)\<close>, where \<open>sz\<close> is the size of the last file encoded (the image resampled with
  the factor \<open>0.9 ^ 11\<close>, at quality 10), which is larger than the maximum, hence not empty
  for a maximum that is not negative. That file is at the output path, and the temporary
  file is gone.
\<close>

theorem gives_up_below_min_scale:
  assumes "Image_open input_path = Some img"
    and "\<forall>j\<le>16. \<exists>sz. im_save img Img (format_or_default img) (10 + 5 * int j) = Some sz \<and>
           snd target_size_kb * 1024 < sz"
    and "\<forall>k. 1 \<le> k \<and> k \<le> 11 \<longrightarrow>
           (\<exists>sz. im_save img
                   (Resize (py_int (float_mul (float_of_int (fst (im_size img))) (decayed k)))
                           (py_int (float_mul (float_of_int (snd (im_size img))) (decayed k))) LANCZOS)
                   (format_or_default img) 10 = Some sz \<and>
                 snd target_size_kb * 1024 < sz)"
  shows "\<exists>sz. im_save img
            (Resize (py_int (float_mul (float_of_int (fst (im_size img))) (decayed 11)))
                    (py_int (float_mul (float_of_int (snd (im_size img))) (decayed 11))) LANCZOS)
            (format_or_default img) 10 = Some sz \<and>
     snd target_size_kb * 1024 < sz \<and>
     float_mul (decayed 11) (binary64 (9 / 10)) < binary64 (3 / 10) \<and>
     returned (resize_image (28 + m) Image_open d input_path output_path target_size_kb) = Some (False, sz) \<and>
     length (attempts (resize_image (28 + m) Image_open d input_path output_path target_size_kb)) = 28 \<and>
     last (attempts (resize_image (28 + m) Image_open d input_path output_path target_size_kb)) =
       \<lparr>at_quality = 10, at_scale = decayed 11,
        at_buffer = Resize (py_int (float_mul (float_of_int (fst (im_size img))) (decayed 11)))
                           (py_int (float_mul (float_of_int (snd (im_size img))) (decayed 11))) LANCZOS,
        at_bytes = Some sz\<rparr> \<and>
     disk_after (resize_image (28 + m) Image_open d input_path output_path target_size_kb) output_path =
       Some \<lparr>art_buffer = Resize (py_int (float_mul (float_of_int (fst (im_size img))) (decayed 11)))
                                 (py_int (float_mul (float_of_int (snd (im_size img))) (decayed 11))) LANCZOS,
             art_format = format_or_default img, art_quality = 10, art_bytes = sz\<rparr> \<and>
     disk_after (resize_image (28 + m) Image_open d input_path output_path target_size_kb)
       (output_path @ ''.temp'') = None \<and>
     (0 \<le> snd target_size_kb \<longrightarrow> 0 < sz)"
proof -
  let ?fmt = "format_or_default img"
  let ?mn = "fst target_size_kb * 1024" and ?mx = "snd target_size_kb * 1024"
  let ?b = "\<lambda>k. Resize (py_int (float_mul (float_of_int (fst (im_size img))) (decayed k)))
                        (py_int (float_mul (float_of_int (snd (im_size img))) (decayed k))) LANCZOS"
  have b: "resized (im_size img) (decayed k) = ?b k" if "1 \<le> k" "k \<le> 11" for k
    using decayed_below_1[OF that] by (simp add: resized_def)
  have bigq: "\<exists>sz. im_save img (resized (im_size img) 1) ?fmt (10 + 5 * int j) = Some sz \<and> ?mx < sz"
    if "j \<le> 16" for j
    using assms(2) that unfolding resized_1 by blast
  have big: "\<exists>sz. im_save img (resized (im_size img) (decayed k)) ?fmt 10 = Some sz \<and> ?mx < sz"
    if "k \<le> 11" for k
  proof (cases "k = 0")
    case True
    with bigq[of 0] show ?thesis by simp
  next
    case False
    then have k: "1 \<le> k" by simp
    from assms(3) k that show ?thesis unfolding b[OF k that] by blast
  qed
  have r: "resize_image (28 + m) Image_open d input_path output_path target_size_kb =
      resize_loop (16 + 12 + m) img ?fmt output_path ?mn ?mx (10 + 5 * int 16) 1 d"
    using assms(1) by (simp add: resize_image_def Let_def)
  have i: "(16::nat) \<le> 16" by simp
  from too_large_quality_run[where img = img and fmt = ?fmt and mx = ?mx and i = 16
      and out = output_path and m = m and mn = ?mn and d = d, OF big bigq i]
  have g: "gives_up img ?fmt output_path ?mx
        (resize_image (28 + m) Image_open d input_path output_path target_size_kb)"
    and l: "length (attempts (resize_image (28 + m) Image_open d input_path output_path target_size_kb)) = 28"
    unfolding r by simp_all
  have lt: "float_mul (decayed 11) (binary64 (9 / 10)) < binary64 (3 / 10)"
    using decayed_Suc_11 by (simp only: decayed.simps)
  have b11: "resized (im_size img) (decayed 11) = ?b 11" by (rule b) simp_all
  from g obtain sz where sz:
    "im_save img (?b 11) ?fmt 10 = Some sz" "?mx < sz"
    "exit (resize_image (28 + m) Image_open d input_path output_path target_size_kb) = Returned False sz"
    "last (attempts (resize_image (28 + m) Image_open d input_path output_path target_size_kb)) =
       \<lparr>at_quality = 10, at_scale = decayed 11, at_buffer = ?b 11, at_bytes = Some sz\<rparr>"
    "disk_after (resize_image (28 + m) Image_open d input_path output_path target_size_kb) output_path =
       Some \<lparr>art_buffer = ?b 11, art_format = ?fmt, art_quality = 10, art_bytes = sz\<rparr>"
    "disk_after (resize_image (28 + m) Image_open d input_path output_path target_size_kb)
       (output_path @ ''.temp'') = None"
    unfolding gives_up_def attempt_of_def artifact_of_def b11 by blast
  have "0 \<le> snd target_size_kb \<longrightarrow> 0 < sz" using sz(2) by auto
  with sz l lt show ?thesis by (intro exI[of _ sz]) (simp add: returned_def)
qed

theorem gives_up_below_min_scale_witness:
  "returned (resize_image 28 (\<lambda>p. Some poster) Map.empty ''in/a.jpg'' ''out/a.jpg'' (100, 1024))
     = Some (False, 1180955) \<and>
   length (attempts (resize_image 28 (\<lambda>p. Some poster) Map.empty ''in/a.jpg'' ''out/a.jpg''
     (100, 1024))) = 28 \<and>
   last (attempts (resize_image 28 (\<lambda>p. Some poster) Map.empty ''in/a.jpg'' ''out/a.jpg''
     (100, 1024))) =
     \<lparr>at_quality = 10, at_scale = 706638641807919 / 2251799813685248,
      at_buffer = Resize 1255 941 LANCZOS, at_bytes = Some 1180955\<rparr> \<and>
   disk_after (resize_image 28 (\<lambda>p. Some poster) Map.empty ''in/a.jpg'' ''out/a.jpg'' (100, 1024))
     ''out/a.jpg'' =
     Some \<lparr>art_buffer = Resize 1255 941 LANCZOS, art_format = ''JPEG'', art_quality = 10,
           art_bytes = 1180955\<rparr> \<and>
   disk_after (resize_image 28 (\<lambda>p. Some poster) Map.empty ''in/a.jpg'' ''out/a.jpg'' (100, 1024))
     ''out/a.jpg.temp'' = None"
proof -
  have o: "(\<lambda>p. Some poster) ''in/a.jpg'' = Some poster" by simp
  have q: "\<forall>j\<le>16. \<exists>sz. im_save poster Img (format_or_default poster) (10 + 5 * int j) = Some sz \<and>
      snd (100, 1024) * 1024 < sz"
    by simp
  have b: "Resize (py_int (float_mul (float_of_int (fst (im_size poster))) (decayed k)))
                  (py_int (float_mul (float_of_int (snd (im_size poster))) (decayed k))) LANCZOS =
      resized (im_size poster) (decayed k)" if "1 \<le> k" "k \<le> 11" for k
    using decayed_below_1[OF that] by (simp add: resized_def)
  have s: "\<forall>k. 1 \<le> k \<and> k \<le> 11 \<longrightarrow>
      (\<exists>sz. im_save poster
              (Resize (py_int (float_mul (float_of_int (fst (im_size poster))) (decayed k)))
                      (py_int (float_mul (float_of_int (snd (im_size poster))) (decayed k))) LANCZOS)
              (format_or_default poster) 10 = Some sz \<and>
            snd (100, 1024) * 1024 < sz)"
  proof (intro allI impI)
    fix k :: nat assume k: "1 \<le> k \<and> k \<le> 11"
    then have "k \<le> 11" by simp
    from poster_too_large_at_quality_10[OF this] show "\<exists>sz. im_save poster
              (Resize (py_int (float_mul (float_of_int (fst (im_size poster))) (decayed k)))
                      (py_int (float_mul (float_of_int (snd (im_size poster))) (decayed k))) LANCZOS)
              (format_or_default poster) 10 = Some sz \<and>
            snd (100, 1024) * 1024 < sz"
      unfolding b[of k, OF k[THEN conjunct1] k[THEN conjunct2]] by simp
  qed
  have dims:
    "py_int (float_mul (float_of_int 4000) (706638641807919 / 2251799813685248)) = 1255"
    "py_int (float_mul (float_of_int 3000) (706638641807919 / 2251799813685248)) = 941"
    by (simp_all add: float_4000 float_3000 width_11 height_11 int_of_1255 int_of_941)
  from gives_up_below_min_scale[where Image_open = "\<lambda>p. Some poster" and input_path = "''in/a.jpg''"
      and img = poster and target_size_kb = "(100, 1024)" and m = 0 and d = Map.empty
      and output_path = "''out/a.jpg''", OF o q s]
  show ?thesis
    by (auto simp add: decayed_vals(12) dims simp del: decayed.simps)
qed

section \<open>An image already inside the band\<close>

text \<open>
  C7. When the image encoded at the initial quality 90 and scale 1.0 already has a size
  inside \<open>[min_size_bytes, max_size_bytes]\<close>, \<^verbatim>\<open>resize_image\<close> returns \<open>(True, size)\<close> after one
  attempt, made on the original buffer (no resampling), and that file is at the output path.
\<close>

theorem in_band_at_first_attempt:
  assumes "Image_open input_path = Some img"
    and "im_save img Img (format_or_default img) 90 = Some sz"
    and "fst target_size_kb * 1024 \<le> sz" and "sz \<le> snd target_size_kb * 1024"
  shows "returned (resize_image (Suc n) Image_open d input_path output_path target_size_kb) = Some (True, sz) \<and>
     attempts (resize_image (Suc n) Image_open d input_path output_path target_size_kb) =
       [\<lparr>at_quality = 90, at_scale = 1, at_buffer = Img, at_bytes = Some sz\<rparr>] \<and>
     disk_after (resize_image (Suc n) Image_open d input_path output_path target_size_kb) output_path =
       Some \<lparr>art_buffer = Img, art_format = format_or_default img, art_quality = 90, art_bytes = sz\<rparr>"
proof -
  have s: "im_save img (resized (im_size img) 1) (format_or_default img) 90 = Some sz"
    using assms(2) by (simp add: resized_1)
  have a: "adjust (fst target_size_kb * 1024) (snd target_size_kb * 1024) 90 1 sz = Done True sz"
    using assms(3,4) by (simp add: adjust_def)
  show ?thesis
    using assms(1)
    by (simp add: resize_image_def Let_def resize_loop_Done[OF s a] returned_def moved_output
          attempt_of_def artifact_of_def resized_1)
qed

theorem in_band_at_first_attempt_witness:
  "returned (resize_image (Suc 0) (\<lambda>p. Some (stub (4000, 3000) (\<lambda>q. 500000))) Map.empty
      ''in/a.jpg'' ''out/a.jpg'' (100, 1024)) = Some (True, 500000) \<and>
   attempts (resize_image (Suc 0) (\<lambda>p. Some (stub (4000, 3000) (\<lambda>q. 500000))) Map.empty
      ''in/a.jpg'' ''out/a.jpg'' (100, 1024)) =
     [\<lparr>at_quality = 90, at_scale = 1, at_buffer = Img, at_bytes = Some 500000\<rparr>]"
  using in_band_at_first_attempt[of "\<lambda>p. Some (stub (4000, 3000) (\<lambda>q. 500000))" "''in/a.jpg''"
      "stub (4000, 3000) (\<lambda>q. 500000)" 500000 "(100, 1024)" 0 Map.empty "''out/a.jpg''"]
  by simp

section \<open>A batch without supported files\<close>

text \<open>
  C10. When no file of the list passes the extension filter (the empty list included),
  whatever the running flag does, \<^verbatim>\<open>run\<close> emits \<^verbatim>\<open>resize_completed\<close> once, with an empty
  list of results, and no other signal; nothing is written.
\<close>

theorem nothing_supported_only_completion:
  "\<forall>f\<in>set files. \<not> supported f \<Longrightarrow>
   run n Image_open files output_dir target_size_kb running d =
     Some \<lparr>results = [], emitted = [resize_completed []], disk = d\<rparr>"
  by (simp add: run_def run_loop_unsupported)

theorem nothing_supported_only_completion_witness:
  "\<not> supported ''notes.txt'' \<and> \<not> supported ''clip.mp4'' \<and>
   run 45 (\<lambda>p. Some photo) [''notes.txt'', ''clip.mp4''] ''out'' (100, 1024) (\<lambda>i. i < 1) Map.empty =
     Some \<lparr>results = [], emitted = [resize_completed []], disk = Map.empty\<rparr>"
proof -
  have u: "\<forall>f\<in>set [''notes.txt'', ''clip.mp4'']. \<not> supported f"
    by (simp add: path_simps)
  from nothing_supported_only_completion[OF u] u show ?thesis by simp
qed

section \<open>Stopping between two files\<close>

text \<open>
  C8. When the running flag is read as set during the first \<open>c\<close> iterations and as cleared
  at the next one (it has been cleared after the file of iteration \<open>c - 1\<close> completed, the
  searches on the supported files among the first \<open>c\<close> having ended), \<^verbatim>\<open>run\<close> makes no
  attempt on a later file. The loop over the whole list is the loop over
  its first \<open>c\<close> files. The results are those of the supported files among the first \<open>c\<close>,
  in order, and \<^verbatim>\<open>resize_completed\<close> is emitted exactly once, last, with exactly these
  results. The disk is the one the searches on these files leave: no path other than
  their output paths and temporary files has changed. And nothing depends on a later
  file: with any other files in the place of the later ones, and whatever \<^verbatim>\<open>Image.open\<close>
  would do on them, \<^verbatim>\<open>run\<close> ends in the same state.
\<close>

theorem stop_between_files:
  assumes "c \<le> length files" and "\<forall>i<c. running i" and "\<not> running c"
    and "\<forall>f\<in>set (take c files). supported f \<longrightarrow> halts n Image_open target_size_kb f"
  shows "run_loop n Image_open output_dir target_size_kb running (length files) 0 files
       \<lparr>results = [], emitted = [], disk = d\<rparr> =
     run_loop n Image_open output_dir target_size_kb running (length files) 0 (take c files)
       \<lparr>results = [], emitted = [], disk = d\<rparr> \<and>
   (\<exists>w. run n Image_open files output_dir target_size_kb running d = Some w \<and>
     results w = map (result_of n Image_open output_dir target_size_kb) (filter supported (take c files)) \<and>
     length (results w) = length (filter supported (take c files)) \<and>
     emitted w =
       concat (map (signals_of n Image_open target_size_kb (length files)) (accepted 0 (take c files))) @
       [resize_completed (results w)] \<and>
     completions (emitted w) = [results w] \<and>
     disk w = saved n Image_open output_dir target_size_kb (take c files) d \<and>
     (\<forall>p. p \<notin> written output_dir (take c files) \<longrightarrow> disk w p = d p)) \<and>
   (\<forall>Image_open' files'.
      length files' = length files \<and> take c files' = take c files \<and>
      (\<forall>f\<in>set (take c files). Image_open' f = Image_open f) \<longrightarrow>
      run n Image_open' files' output_dir target_size_kb running d =
        run n Image_open files output_dir target_size_kb running d)"
proof -
  let ?w0 = "\<lparr>results = [], emitted = [], disk = d\<rparr>"
  have stop: "run_loop n Image_open output_dir target_size_kb running (length files) 0 files ?w0 =
      run_loop n Image_open output_dir target_size_kb running (length files) 0 (take c files) ?w0"
    by (rule run_stop[where running = running and c = c and files = files, OF assms(1,3)])
  have "\<forall>j<length (take c files). running (0 + j)" using assms(1,2) by simp
  from run_loop_saved[OF this assms(4), of output_dir "length files" ?w0]
  have loop: "run_loop n Image_open output_dir target_size_kb running (length files) 0 (take c files) ?w0 =
     Some \<lparr>results = map (result_of n Image_open output_dir target_size_kb) (filter supported (take c files)),
           emitted = concat (map (signals_of n Image_open target_size_kb (length files))
             (accepted 0 (take c files))),
           disk = saved n Image_open output_dir target_size_kb (take c files) d\<rparr>"
    by simp
  have state: "\<exists>w. run n Image_open files output_dir target_size_kb running d = Some w \<and>
     results w = map (result_of n Image_open output_dir target_size_kb) (filter supported (take c files)) \<and>
     length (results w) = length (filter supported (take c files)) \<and>
     emitted w =
       concat (map (signals_of n Image_open target_size_kb (length files)) (accepted 0 (take c files))) @
       [resize_completed (results w)] \<and>
     completions (emitted w) = [results w] \<and>
     disk w = saved n Image_open output_dir target_size_kb (take c files) d \<and>
     (\<forall>p. p \<notin> written output_dir (take c files) \<longrightarrow> disk w p = d p)"
    unfolding run_def stop loop
    by (simp add: completions_append completions_signals saved_frame)
  have indep: "run n Image_open' files' output_dir target_size_kb running d =
      run n Image_open files output_dir target_size_kb running d"
    if len: "length files' = length files" and pre: "take c files' = take c files"
      and same: "\<forall>f\<in>set (take c files). Image_open' f = Image_open f"
    for Image_open' files'
  proof -
    have c': "c \<le> length files'" using assms(1) len by simp
    have "run_loop n Image_open' output_dir target_size_kb running (length files') 0 files' ?w0 =
        run_loop n Image_open' output_dir target_size_kb running (length files') 0 (take c files') ?w0"
      by (rule run_stop[where running = running and c = c and files = files', OF c' assms(3)])
    also have "\<dots> =
        run_loop n Image_open output_dir target_size_kb running (length files) 0 (take c files) ?w0"
      unfolding len pre by (rule run_loop_cong[OF same])
    finally show ?thesis unfolding run_def stop by simp
  qed
  from stop state indep show ?thesis by blast
qed

theorem stop_between_files_witness:
  "(\<exists>w. run (Suc 0) (\<lambda>p. Some photo) [''a.jpg'', ''b.png'', ''c.jpg''] ''out'' (100, 1024)
          (\<lambda>i. i < 1) Map.empty = Some w \<and>
     results w = [(''a.jpg'', ''out/a.jpg'', True, 500000)] \<and>
     emitted w = [progress_updated 33, file_processed ''a.jpg'' True 500000,
                  resize_completed [(''a.jpg'', ''out/a.jpg'', True, 500000)]] \<and>
     disk w = [''out/a.jpg'' \<mapsto>
       \<lparr>art_buffer = Img, art_format = ''JPEG'', art_quality = 90, art_bytes = 500000\<rparr>]) \<and>
   run (Suc 0) (\<lambda>p. if p = ''a.jpg'' then Some photo else None) [''a.jpg'', ''x.png'', ''y.bmp'']
     ''out'' (100, 1024) (\<lambda>i. i < 1) Map.empty =
   run (Suc 0) (\<lambda>p. Some photo) [''a.jpg'', ''b.png'', ''c.jpg''] ''out'' (100, 1024)
     (\<lambda>i. i < 1) Map.empty"
proof -
  have s: "supported ''a.jpg''" by (simp add: path_simps)
  have 1: "Suc 0 \<le> length [''a.jpg'', ''b.png'', ''c.jpg'']" by simp
  have 2: "\<forall>i<Suc 0. i < 1" by simp
  have 3: "\<not> Suc 0 < 1" by simp
  have 4: "\<forall>f\<in>set (take (Suc 0) [''a.jpg'', ''b.png'', ''c.jpg'']).
      supported f \<longrightarrow> halts (Suc 0) (\<lambda>p. Some photo) (100, 1024) f"
    using photo_halts by blast
  have sv: "saved (Suc 0) (\<lambda>p. Some photo) ''out'' (100, 1024) [''a.jpg''] Map.empty =
      [''out/a.jpg'' \<mapsto>
        \<lparr>art_buffer = Img, art_format = ''JPEG'', art_quality = 90, art_bytes = 500000\<rparr>]"
    using photo_in_band[of 0 "''out/a.jpg''" Map.empty]
    by (auto simp add: s resize_image_def basename_def join_def rfind_def shutil_move_def
          artifact_of_def resized_1 fun_eq_iff)
  note t = stop_between_files[where running = "\<lambda>i. i < 1" and c = "Suc 0"
      and files = "[''a.jpg'', ''b.png'', ''c.jpg'']" and n = "Suc 0" and Image_open = "\<lambda>p. Some photo"
      and target_size_kb = "(100, 1024)" and output_dir = "''out''" and d = Map.empty, OF 1 2 3 4]
  from t[THEN conjunct2, THEN conjunct1]
  have state: "\<exists>w. run (Suc 0) (\<lambda>p. Some photo) [''a.jpg'', ''b.png'', ''c.jpg''] ''out'' (100, 1024)
          (\<lambda>i. i < 1) Map.empty = Some w \<and>
     results w = [(''a.jpg'', ''out/a.jpg'', True, 500000)] \<and>
     emitted w = [progress_updated 33, file_processed ''a.jpg'' True 500000,
                  resize_completed [(''a.jpg'', ''out/a.jpg'', True, 500000)]] \<and>
     disk w = [''out/a.jpg'' \<mapsto>
       \<lparr>art_buffer = Img, art_format = ''JPEG'', art_quality = 90, art_bytes = 500000\<rparr>]"
    unfolding sv[symmetric]
    by (auto simp add: s accepted_Cons accepted_Nil result_of_def signals_of_def photo_outcome
          progress_0_3[unfolded numeral_3_eq_3] basename_def join_def rfind_def)
  from t[THEN conjunct2, THEN conjunct2, rule_format,
      of "[''a.jpg'', ''x.png'', ''y.bmp'']" "\<lambda>p. if p = ''a.jpg'' then Some photo else None"]
  have "run (Suc 0) (\<lambda>p. if p = ''a.jpg'' then Some photo else None) [''a.jpg'', ''x.png'', ''y.bmp'']
     ''out'' (100, 1024) (\<lambda>i. i < 1) Map.empty =
   run (Suc 0) (\<lambda>p. Some photo) [''a.jpg'', ''b.png'', ''c.jpg''] ''out'' (100, 1024)
     (\<lambda>i. i < 1) Map.empty"
    by simp
  with state show ?thesis by blast
qed

section \<open>Progress\<close>

text \<open>
  C2 (as the code has it). When the flag stays set and every search ends, \<^verbatim>\<open>run\<close> emits
  \<^verbatim>\<open>progress_updated\<close> once per supported file, right before that file's
  \<^verbatim>\<open>file_processed\<close>; its value is \<open>int((i + 1) / len(files) * 100)\<close>, where \<open>i\<close> is the index
  of the file in the whole list and \<open>len(files)\<close> counts every file, supported or not; the
  value is truncated. The values lie between 0 and 100 and never decrease; the last
  value is 100 when the last file of the list is supported.
\<close>

theorem progress_once_per_accepted_file:
  assumes "\<forall>i<length files. running i"
    and "\<forall>f\<in>set files. supported f \<longrightarrow> halts n Image_open target_size_kb f"
  shows "\<exists>w. run n Image_open files output_dir target_size_kb running d = Some w \<and>
     emitted w =
       concat (map (signals_of n Image_open target_size_kb (length files)) (accepted 0 files)) @
       [resize_completed (results w)] \<and>
     percents (emitted w) = map (\<lambda>jf. progress_of (fst jf) (length files)) (accepted 0 files) \<and>
     length (percents (emitted w)) = length (filter supported files) \<and>
     length (results w) = length (filter supported files) \<and>
     sorted (percents (emitted w)) \<and>
     (\<forall>q\<in>set (percents (emitted w)). 0 \<le> q \<and> q \<le> 100) \<and>
     (files \<noteq> [] \<and> supported (last files) \<longrightarrow> last (percents (emitted w)) = 100)"
proof -
  from run_all[OF assms, of output_dir d] obtain w where w:
    "run n Image_open files output_dir target_size_kb running d = Some w"
    "results w = map (result_of n Image_open output_dir target_size_kb) (filter supported files)"
    "emitted w = concat (map (signals_of n Image_open target_size_kb (length files)) (accepted 0 files)) @
       [resize_completed (results w)]"
    by force
  have p: "percents (emitted w) = map (\<lambda>jf. progress_of (fst jf) (length files)) (accepted 0 files)"
    unfolding w(3) by (simp add: percents_append percents_signals)
  have "last (percents (emitted w)) = 100" if "files \<noteq> []" "supported (last files)"
  proof -
    from last_accepted[OF that, of 0]
    have a: "accepted 0 files \<noteq> []" "last (accepted 0 files) = (length files - 1, last files)"
      by simp_all
    have "0 < length files" using that(1) by simp
    from progress_of_last[OF this] a show ?thesis
      unfolding p by (simp add: last_map)
  qed
  moreover have "sorted (percents (emitted w))"
    unfolding p by (rule percents_sorted)
  moreover have "\<forall>q\<in>set (percents (emitted w)). 0 \<le> q \<and> q \<le> 100"
    unfolding p using percents_range by blast
  moreover have "length (percents (emitted w)) = length (filter supported files)"
    unfolding p by (simp add: length_accepted)
  moreover have "length (results w) = length (filter supported files)"
    unfolding w(2) by simp
  ultimately show ?thesis using w(1,3) p by blast
qed

theorem progress_once_per_accepted_file_witness:
  "\<exists>w. run (Suc 0) (\<lambda>p. Some photo) [''a.jpg'', ''notes.txt'', ''c.PNG''] ''out'' (100, 1024)
          (\<lambda>i. True) Map.empty = Some w \<and>
     percents (emitted w) = [33, 100] \<and> length (results w) = 2"
proof -
  have s: "supported ''a.jpg''" "\<not> supported ''notes.txt''" "supported ''c.PNG''"
    by (simp_all add: path_simps)
  have 1: "\<forall>i<length [''a.jpg'', ''notes.txt'', ''c.PNG'']. True" by simp
  have 2: "\<forall>f\<in>set [''a.jpg'', ''notes.txt'', ''c.PNG''].
      supported f \<longrightarrow> halts (Suc 0) (\<lambda>p. Some photo) (100, 1024) f"
    using photo_halts by blast
  have p: "progress_of 2 3 = 100" using progress_of_last[of 3] by simp
  from progress_once_per_accepted_file[where running = "\<lambda>i. True"
      and files = "[''a.jpg'', ''notes.txt'', ''c.PNG'']" and n = "Suc 0" and Image_open = "\<lambda>p. Some photo"
      and target_size_kb = "(100, 1024)" and output_dir = "''out''" and d = Map.empty, OF 1 2]
  show ?thesis
    by (auto simp add: s accepted_Cons accepted_Nil progress_0_3[unfolded numeral_3_eq_3]
          p[unfolded numeral_3_eq_3 numeral_2_eq_2])
qed

text \<open>
  C2 as the specification states it fails: for the list \<open>a.jpg, notes.txt\<close>, with one
  supported file, the only progress value emitted is 50, where
  \<open>round((0 + 1) / 1 * 100) = 100\<close> is specified and the last value should be 100.
\<close>

theorem progress_as_specified_counterexample:
  "length (filter supported [''a.jpg'', ''notes.txt'']) = 1 \<and>
   map_option (\<lambda>w. percents (emitted w))
     (run (Suc 0) (\<lambda>p. Some photo) [''a.jpg'', ''notes.txt''] ''out'' (100, 1024) (\<lambda>i. True) Map.empty)
     = Some [50] \<and>
   progress_spec 0 1 = 100"
proof -
  have s: "supported ''a.jpg''" "\<not> supported ''notes.txt''"
    by (simp_all add: path_simps)
  show ?thesis
    using photo_in_band[of 0 "''out/a.jpg''"]
    by (simp add: s run_def Let_def resize_image_def returned_def basename_def join_def rfind_def
          progress_0_2[unfolded numeral_2_eq_2] progress_0_2 progress_spec_0_1
          progress_spec_0_1[unfolded One_nat_def])
qed

text \<open>
  The values need not increase strictly, even when every file is supported: of 100
  files, the 28th and the 29th both report 28, since \<open>29 / 100 * 100\<close> is
  \<open>28.999999999999996\<close> in binary64.
\<close>

lemma progress_repeats:
  "progress_of 27 100 = progress_of 28 100"
  using progress_not_strict by simp

section \<open>A file that cannot be decoded\<close>

text \<open>
  C3 (as the code has it). A supported file that cannot be parsed as an image (\<^verbatim>\<open>Image.open\<close>
  raises, or the image opens and its first \<^verbatim>\<open>save\<close> raises) is not skipped.
  \<^verbatim>\<open>resize_image\<close> returns \<open>(False, 0)\<close> for it. When the loop of \<^verbatim>\<open>run\<close> reaches the file with
  the running flag set, it appends the outcome \<open>(path, output path, False, 0)\<close> to the
  results, emits \<^verbatim>\<open>progress_updated\<close> and \<^verbatim>\<open>file_processed\<close> for it, leaves the disk as it
  was, and goes on with the next file. So whenever \<^verbatim>\<open>run\<close> returns on a list where the flag
  is set up to this file, the outcome is among the results it reports and both signals are
  among those it has emitted.
\<close>

theorem undecodable_file_is_reported:
  assumes "supported f" and "undecodable Image_open f" and "\<forall>j\<le>length pre. running j"
  shows "returned (resize_image (Suc n) Image_open d' f out target_size_kb) = Some (False, 0) \<and>
   (\<forall>w len_files.
      run_loop (Suc n) Image_open output_dir target_size_kb running len_files (length pre) (f # rest) w =
      run_loop (Suc n) Image_open output_dir target_size_kb running len_files (Suc (length pre)) rest
        \<lparr>results = results w @ [(f, join output_dir (basename f), False, 0)],
         emitted = emitted w @ [progress_updated (progress_of (length pre) len_files),
                                file_processed (basename f) False 0],
         disk = disk w\<rparr>) \<and>
   (\<forall>w. run (Suc n) Image_open (pre @ f # rest) output_dir target_size_kb running d = Some w \<longrightarrow>
      (f, join output_dir (basename f), False, 0) \<in> set (results w) \<and>
      progress_updated (progress_of (length pre) (length (pre @ f # rest))) \<in> set (emitted w) \<and>
      file_processed (basename f) False 0 \<in> set (emitted w))"
proof -
  have here: "running (length pre)" using assms(3) by simp
  have before: "\<forall>j<length pre. running (0 + j)" using assms(3) by simp
  have 1: "returned (resize_image (Suc n) Image_open d' f out target_size_kb) = Some (False, 0)"
    using resize_image_undecodable[OF assms(2), of n d' out target_size_kb]
    by (simp add: returned_def)
  have 2: "run_loop (Suc n) Image_open output_dir target_size_kb running len_files (length pre) (f # rest) w =
      run_loop (Suc n) Image_open output_dir target_size_kb running len_files (Suc (length pre)) rest
        \<lparr>results = results w @ [(f, join output_dir (basename f), False, 0)],
         emitted = emitted w @ [progress_updated (progress_of (length pre) len_files),
                                file_processed (basename f) False 0],
         disk = disk w\<rparr>" for w len_files
    by (rule run_loop_undecodable[where running = running and i = "length pre", OF assms(1,2) here])
  have 3: "(f, join output_dir (basename f), False, 0) \<in> set (results w) \<and>
      progress_updated (progress_of (length pre) (length (pre @ f # rest))) \<in> set (emitted w) \<and>
      file_processed (basename f) False 0 \<in> set (emitted w)"
    if w: "run (Suc n) Image_open (pre @ f # rest) output_dir target_size_kb running d = Some w" for w
  proof -
    let ?len = "length (pre @ f # rest)"
    let ?w0 = "\<lparr>results = [], emitted = [], disk = d\<rparr>"
    from w obtain wl where wl:
      "run_loop (Suc n) Image_open output_dir target_size_kb running ?len 0 (pre @ f # rest) ?w0 = Some wl"
      "w = wl\<lparr>emitted := emitted wl @ [resize_completed (results wl)]\<rparr>"
      unfolding run_def by (auto split: option.splits)
    from wl(1) obtain w1 where w1:
      "run_loop (Suc n) Image_open output_dir target_size_kb running ?len (0 + length pre) (f # rest) w1 = Some wl"
      unfolding run_loop_append[where running = running and i = 0 and pre = pre, OF before]
      by (auto split: option.splits)
    let ?w2 = "\<lparr>results = results w1 @ [(f, join output_dir (basename f), False, 0)],
         emitted = emitted w1 @ [progress_updated (progress_of (length pre) ?len),
                                file_processed (basename f) False 0],
         disk = disk w1\<rparr>"
    from w1 have "run_loop (Suc n) Image_open output_dir target_size_kb running ?len (Suc (length pre)) rest ?w2
        = Some wl"
      unfolding add_0 2 .
    from run_loop_grows[OF this] obtain rs es where
      "results wl = results ?w2 @ rs" "emitted wl = emitted ?w2 @ es" by blast
    then show ?thesis unfolding wl(2) by simp
  qed
  from 1 2 3 show ?thesis by blast
qed

theorem undecodable_file_is_reported_witness:
  "undecodable (\<lambda>p. if p = ''cut.jpg'' then Some cut else Some photo) ''cut.jpg'' \<and>
   returned (resize_image (Suc 0) (\<lambda>p. if p = ''cut.jpg'' then Some cut else Some photo) Map.empty
     ''cut.jpg'' ''out/cut.jpg'' (100, 1024)) = Some (False, 0) \<and>
   run (Suc 0) (\<lambda>p. if p = ''cut.jpg'' then Some cut else Some photo) [''cut.jpg'', ''ok.png'']
     ''out'' (100, 1024) (\<lambda>i. True) Map.empty =
   Some \<lparr>results = [(''cut.jpg'', ''out/cut.jpg'', False, 0), (''ok.png'', ''out/ok.png'', True, 500000)],
         emitted = [progress_updated 50, file_processed ''cut.jpg'' False 0,
                    progress_updated 100, file_processed ''ok.png'' True 500000,
                    resize_completed [(''cut.jpg'', ''out/cut.jpg'', False, 0),
                                      (''ok.png'', ''out/ok.png'', True, 500000)]],
         disk = [''out/ok.png'' \<mapsto>
           \<lparr>art_buffer = Img, art_format = ''JPEG'', art_quality = 90, art_bytes = 500000\<rparr>]\<rparr>"
proof -
  let ?open = "\<lambda>p. if p = ''cut.jpg'' then Some cut else Some photo"
  have s: "supported ''cut.jpg''" "supported ''ok.png''"
    by (simp_all add: path_simps)
  have u: "undecodable ?open ''cut.jpg''"
    by (simp add: undecodable_def cut_def)
  have r: "\<forall>j\<le>length ([]::string list). (\<lambda>i. True) j" by simp
  note t = undecodable_file_is_reported[where f = "''cut.jpg''" and Image_open = ?open
      and pre = "[]" and running = "\<lambda>i. True" and n = 0 and target_size_kb = "(100, 1024)"
      and output_dir = "''out''", OF s(1) u r]
  have ok: "resize_image (Suc 0) ?open dk ''ok.png'' ''out/ok.png'' (100, 1024) =
      resize_loop (Suc 0) photo ''JPEG'' ''out/ok.png'' (100 * 1024) (1024 * 1024) 90 1 dk" for dk
    by (simp add: resize_image_def)
  have dk: "shutil_move
      (Map.empty(''out/ok.png.temp'' \<mapsto> artifact_of photo ''JPEG'' 90 1 500000))
      ''out/ok.png.temp'' ''out/ok.png'' =
      [''out/ok.png'' \<mapsto>
        \<lparr>art_buffer = Img, art_format = ''JPEG'', art_quality = 90, art_bytes = 500000\<rparr>]"
    by (auto simp add: shutil_move_def artifact_of_def resized_1 fun_eq_iff)
  have p: "progress_of (Suc 0) 2 = 100"
    using progress_of_last[of 2] by simp
  have step: "run_loop (Suc 0) ?open ''out'' (100, 1024) (\<lambda>i. True) (length [''cut.jpg'', ''ok.png'']) 0
      [''cut.jpg'', ''ok.png''] \<lparr>results = [], emitted = [], disk = Map.empty\<rparr> =
    run_loop (Suc 0) ?open ''out'' (100, 1024) (\<lambda>i. True) (length [''cut.jpg'', ''ok.png'']) (Suc 0)
      [''ok.png'']
      \<lparr>results = [(''cut.jpg'', join ''out'' (basename ''cut.jpg''), False, 0)],
       emitted = [progress_updated (progress_of 0 (length [''cut.jpg'', ''ok.png''])),
                  file_processed (basename ''cut.jpg'') False 0],
       disk = Map.empty\<rparr>"
    using t[THEN conjunct2, THEN conjunct1, rule_format,
        of "length [''cut.jpg'', ''ok.png'']" "[''ok.png'']"
           "\<lparr>results = [], emitted = [], disk = Map.empty\<rparr>"]
    by (simp only: list.size(3) worker.select_convs append_Nil)
  have "run (Suc 0) ?open [''cut.jpg'', ''ok.png''] ''out'' (100, 1024) (\<lambda>i. True) Map.empty =
   Some \<lparr>results = [(''cut.jpg'', ''out/cut.jpg'', False, 0), (''ok.png'', ''out/ok.png'', True, 500000)],
         emitted = [progress_updated 50, file_processed ''cut.jpg'' False 0,
                    progress_updated 100, file_processed ''ok.png'' True 500000,
                    resize_completed [(''cut.jpg'', ''out/cut.jpg'', False, 0),
                                      (''ok.png'', ''out/ok.png'', True, 500000)]],
         disk = [''out/ok.png'' \<mapsto>
           \<lparr>art_buffer = Img, art_format = ''JPEG'', art_quality = 90, art_bytes = 500000\<rparr>]\<rparr>"
    unfolding run_def step
    using photo_in_band[of 0 "''out/ok.png''" Map.empty] dk p[unfolded numeral_2_eq_2]
      progress_0_2[unfolded numeral_2_eq_2]
    by (simp add: s ok returned_def basename_def join_def rfind_def Let_def)
  with u t[THEN conjunct1, of Map.empty "''out/cut.jpg''"] show ?thesis by blast
qed

text \<open>
  C3 as the specification states it fails: the undecodable \<open>broken.jpg\<close> appears in the
  results of the batch, with \<open>(False, 0)\<close>, before the outcome of \<open>ok.png\<close>.
\<close>

theorem undecodable_file_is_skipped_counterexample:
  "supported ''broken.jpg'' \<and>
   (\<lambda>p. if p = ''ok.png'' then Some photo else None) ''broken.jpg'' = None \<and>
   map_option results
     (run (Suc 0) (\<lambda>p. if p = ''ok.png'' then Some photo else None) [''broken.jpg'', ''ok.png'']
        ''out'' (100, 1024) (\<lambda>i. True) Map.empty) =
   Some [(''broken.jpg'', ''out/broken.jpg'', False, 0), (''ok.png'', ''out/ok.png'', True, 500000)]"
proof -
  have s: "supported ''broken.jpg''" "supported ''ok.png''"
    by (simp_all add: path_simps)
  show ?thesis
    using photo_in_band[of 0 "''out/ok.png''"]
    by (simp add: s run_def Let_def resize_image_def returned_def basename_def join_def rfind_def)
qed

end
